theory Spec2Isabelle
  imports Main "HOL-Library.Word"
begin

section \<open>The GGPK toolkit (PyPoE/poe/file/ggpk.py)\<close>

text \<open>
  A shallow embedding of the record decoder, the linear scan, the directory tree builder
  and the tree navigation of \<^verbatim>\<open>ggpk.py\<close>. Python exceptions are values of
  \<open>error\<close>; a loop that the source can run forever is a \<open>partial_function\<close> in the
  option monad, where \<open>None\<close> means that the call never returns. Python objects with
  identity (the \<open>DirectoryNode\<close> instances, which refer to each other through
  \<open>parent\<close> and \<open>children\<close>) live in an explicit store.
\<close>

subsection \<open>Python values\<close>

type_synonym byte = "8 word"

type_synonym bytes = "byte list"

text \<open>A Python \<open>str\<close> is a sequence of Unicode code points.\<close>

type_synonym str = "nat list"

definition str_of :: "string \<Rightarrow> str" where
  "str_of s = map of_char s"

text \<open>
  The exceptions the modelled code can raise. \<open>UnicodeDecodeError\<close> carries the name of
  the codec (Python's \<open>e.encoding\<close>), \<open>ParserError\<close> the start of its message;
  \<open>StructError\<close> is \<open>struct.error\<close>. In Python \<open>UnicodeDecodeError\<close> is a
  subclass of \<open>ValueError\<close>.
\<close>

datatype error =
    ValueError
  | UnicodeDecodeError string
  | StructError
  | KeyError
  | AttributeError
  | UnboundLocalError
  | ParserError string

subsection \<open>The byte source\<close>

text \<open>
  Modelled from the spec: the buffer that \<open>_read\<close> receives comes from
  \<open>AbstractFileReadOnly.read\<close>, which is not among the sources; the spec calls it a
  seekable byte source. It is given the behaviour of \<open>io.BytesIO\<close>: \<open>read(n)\<close>
  returns at most \<open>n\<close> bytes (all the remaining ones when \<open>n\<close> is negative) and
  advances the position by the number of bytes returned; \<open>seek(n, os.SEEK_CUR)\<close>
  moves the position by \<open>n\<close>, not below 0 and possibly beyond the end; \<open>tell()\<close>
  is the position.
\<close>

record BytesIO =
  buf :: bytes
  pos :: nat

definition read :: "BytesIO \<Rightarrow> int \<Rightarrow> bytes \<times> BytesIO" where
  "read b n =
     (let rest = drop (pos b) (buf b);
          out = (if n < 0 then rest else take (nat n) rest)
      in (out, b\<lparr>pos := pos b + length out\<rparr>))"

definition seek_cur :: "BytesIO \<Rightarrow> int \<Rightarrow> BytesIO" where
  "seek_cur b n = b\<lparr>pos := nat (max 0 (int (pos b) + n))\<rparr>"

definition tell :: "BytesIO \<Rightarrow> int" where
  "tell b = int (pos b)"

subsection \<open>struct.unpack, int.from_bytes and the codecs\<close>

fun le_uint :: "bytes \<Rightarrow> int" where
  "le_uint [] = 0"
| "le_uint (b # bs) = uint b + 256 * le_uint bs"

text \<open>\<open>struct.unpack('<i', bs)[0]\<close>: a signed 32-bit little-endian integer.\<close>

definition struct_unpack_i :: "bytes \<Rightarrow> error + int" where
  "struct_unpack_i bs =
     (if length bs \<noteq> 4 then Inl StructError
      else Inr (let u = le_uint bs in if u < 2 ^ 31 then u else u - 2 ^ 32))"

text \<open>\<open>struct.unpack('<I', bs)[0]\<close>: an unsigned 32-bit little-endian integer.\<close>

definition struct_unpack_I :: "bytes \<Rightarrow> error + int" where
  "struct_unpack_I bs = (if length bs \<noteq> 4 then Inl StructError else Inr (le_uint bs))"

text \<open>\<open>struct.unpack('<q', bs)[0]\<close>: a signed 64-bit little-endian integer.\<close>

definition struct_unpack_q :: "bytes \<Rightarrow> error + int" where
  "struct_unpack_q bs =
     (if length bs \<noteq> 8 then Inl StructError
      else Inr (let u = le_uint bs in if u < 2 ^ 63 then u else u - 2 ^ 64))"

text \<open>\<open>int.from_bytes(bs, 'big')\<close>.\<close>

definition int_from_bytes_big :: "bytes \<Rightarrow> int" where
  "int_from_bytes_big bs = le_uint (rev bs)"

text \<open>\<open>bs.decode('ascii')\<close>.\<close>

definition decode_ascii :: "bytes \<Rightarrow> error + str" where
  "decode_ascii bs =
     (if list_all (\<lambda>b. b < 128) bs then Inr (map unat bs)
      else Inl (UnicodeDecodeError ''ascii''))"

text \<open>
  UTF-16: the bytes are paired into 16-bit code units, and the code units are combined
  into code points; an odd number of bytes, a high surrogate that no low surrogate
  follows and a low surrogate on its own are decoding errors.
\<close>

fun utf16_units :: "bool \<Rightarrow> bytes \<Rightarrow> nat list option" where
  "utf16_units little [] = Some []"
| "utf16_units little [b] = None"
| "utf16_units little (b0 # b1 # bs) =
     map_option
       ((#) (if little then unat b0 + 256 * unat b1 else unat b1 + 256 * unat b0))
       (utf16_units little bs)"

fun utf16_code_points :: "nat list \<Rightarrow> str option" where
  "utf16_code_points [] = Some []"
| "utf16_code_points (u # us) =
     (if 0xD800 \<le> u \<and> u < 0xDC00 then
        (case us of
           [] \<Rightarrow> None
         | l # rest \<Rightarrow>
             if 0xDC00 \<le> l \<and> l < 0xE000
             then map_option ((#) (0x10000 + (u - 0xD800) * 0x400 + (l - 0xDC00)))
                    (utf16_code_points rest)
             else None)
      else if 0xDC00 \<le> u \<and> u < 0xE000 then None
      else map_option ((#) u) (utf16_code_points us))"

definition utf16_decode :: "string \<Rightarrow> bool \<Rightarrow> bytes \<Rightarrow> error + str" where
  "utf16_decode codec little bs =
     (case utf16_units little bs of
        None \<Rightarrow> Inl (UnicodeDecodeError codec)
      | Some us \<Rightarrow>
          (case utf16_code_points us of
             None \<Rightarrow> Inl (UnicodeDecodeError codec)
           | Some s \<Rightarrow> Inr s))"

text \<open>\<open>bs.decode('UTF-16_LE')\<close>.\<close>

definition decode_UTF_16_LE :: "bytes \<Rightarrow> error + str" where
  "decode_UTF_16_LE bs = utf16_decode ''utf-16-le'' True bs"

text \<open>
  \<open>bs.decode('UTF-16')\<close>: a leading byte order mark selects the byte order and is
  dropped; without one the bytes are read in the byte order of the machine, here
  little-endian.
\<close>

definition decode_UTF_16 :: "bytes \<Rightarrow> error + str" where
  "decode_UTF_16 bs =
     (if take 2 bs = [0xFF, 0xFE] then utf16_decode ''utf-16'' True (drop 2 bs)
      else if take 2 bs = [0xFE, 0xFF] then utf16_decode ''utf-16'' False (drop 2 bs)
      else utf16_decode ''utf-16'' True bs)"

subsection \<open>Records\<close>

text \<open>
  The four record classes. Every record has \<open>length\<close> and \<open>offset\<close> (the back
  reference \<open>_container\<close> to the owning \<open>GGPKFile\<close> is left out: no modelled
  function reads it).
\<close>

datatype DirectoryRecordEntry = DirectoryRecordEntry (entry_hash: int) (entry_offset: int)

datatype Record =
    is_GGPKRecord: GGPKRecord (rec_length: int) (rec_offset: int) (offsets: "int list")
  | is_DirectoryRecord: DirectoryRecord (rec_length: int) (rec_offset: int)
      (name_length: int) (entries_length: int) (rec_hash: int) (rec_name: str)
      (entries: "DirectoryRecordEntry list")
  | is_FileRecord: FileRecord (rec_length: int) (rec_offset: int)
      (name_length: int) (rec_hash: int) (rec_name: str) (data_start: int) (data_length: int)
  | is_FreeRecord: FreeRecord (rec_length: int) (rec_offset: int) (next_free: int)

text \<open>
  \<open>record.name\<close> (the property of \<open>MixinRecord\<close>) and \<open>record.entries\<close>: a class
  without the attribute raises \<open>AttributeError\<close>.
\<close>

definition record_name :: "Record \<Rightarrow> error + str" where
  "record_name r =
     (if is_DirectoryRecord r \<or> is_FileRecord r then Inr (rec_name r) else Inl AttributeError)"

definition record_entries :: "Record \<Rightarrow> error + DirectoryRecordEntry list" where
  "record_entries r = (if is_DirectoryRecord r then Inr (entries r) else Inl AttributeError)"

definition record_offsets :: "Record \<Rightarrow> error + int list" where
  "record_offsets r = (if is_GGPKRecord r then Inr (offsets r) else Inl AttributeError)"

subsection \<open>Decoding a record\<close>

text \<open>\<open>GGPKRecord.read\<close>: the loop \<open>for i in range(0, records)\<close> reads one offset each time.\<close>

fun GGPKRecord_read_offsets ::
  "nat \<Rightarrow> BytesIO \<Rightarrow> int list \<Rightarrow> error + int list \<times> BytesIO" where
  "GGPKRecord_read_offsets 0 b offs = Inr (offs, b)"
| "GGPKRecord_read_offsets (Suc k) b offs =
     (case read b 8 of (bs, b1) \<Rightarrow>
        (case struct_unpack_q bs of
           Inl e \<Rightarrow> Inl e
         | Inr v \<Rightarrow> GGPKRecord_read_offsets k b1 (offs @ [v])))"

definition GGPKRecord_read :: "int \<Rightarrow> int \<Rightarrow> BytesIO \<Rightarrow> error + Record \<times> BytesIO" where
  "GGPKRecord_read len off b =
     (case read b 4 of (bs, b1) \<Rightarrow>
        (case struct_unpack_i bs of
           Inl e \<Rightarrow> Inl e
         | Inr records \<Rightarrow>
             (case GGPKRecord_read_offsets (nat records) b1 [] of
                Inl e \<Rightarrow> Inl e
              | Inr (offs, b2) \<Rightarrow> Inr (GGPKRecord len off offs, b2))))"

text \<open>
  \<open>DirectoryRecord.read\<close>: the loop \<open>for i in range(0, self.entries_length)\<close> reads the
  hash and then the offset of one entry each time.
\<close>

fun DirectoryRecord_read_entries ::
  "nat \<Rightarrow> BytesIO \<Rightarrow> DirectoryRecordEntry list \<Rightarrow>
     error + DirectoryRecordEntry list \<times> BytesIO" where
  "DirectoryRecord_read_entries 0 b es = Inr (es, b)"
| "DirectoryRecord_read_entries (Suc k) b es =
     (case read b 4 of (hs, b1) \<Rightarrow>
        (case struct_unpack_I hs of
           Inl e \<Rightarrow> Inl e
         | Inr h \<Rightarrow>
             (case read b1 8 of (os, b2) \<Rightarrow>
                (case struct_unpack_q os of
                   Inl e \<Rightarrow> Inl e
                 | Inr off \<Rightarrow>
                     DirectoryRecord_read_entries k b2 (es @ [DirectoryRecordEntry h off])))))"

definition DirectoryRecord_read :: "int \<Rightarrow> int \<Rightarrow> BytesIO \<Rightarrow> error + Record \<times> BytesIO" where
  "DirectoryRecord_read len off b =
     (case read b 4 of (bs, b1) \<Rightarrow>
        (case struct_unpack_i bs of
           Inl e \<Rightarrow> Inl e
         | Inr nl \<Rightarrow>
             (case read b1 4 of (cs, b2) \<Rightarrow>
                (case struct_unpack_i cs of
                   Inl e \<Rightarrow> Inl e
                 | Inr el \<Rightarrow>
                     (case read b2 32 of (hs, b3) \<Rightarrow>
                        (case read b3 (2 * (nl - 1)) of (ns, b4) \<Rightarrow>
                           (case decode_UTF_16_LE ns of
                              Inl e \<Rightarrow> Inl e
                            | Inr nm \<Rightarrow>
                                (case DirectoryRecord_read_entries (nat el) (seek_cur b4 2) [] of
                                   Inl e \<Rightarrow> Inl e
                                 | Inr (es, b5) \<Rightarrow>
                                     Inr (DirectoryRecord len off nl el
                                            (int_from_bytes_big hs) nm es, b5)))))))))"

text \<open>
  \<open>FileRecord.read\<close>: the content is not read; \<open>data_start\<close> is the position after the
  two bytes of the name's terminator, and the position moves on by \<open>data_length\<close>.
\<close>

definition FileRecord_read :: "int \<Rightarrow> int \<Rightarrow> BytesIO \<Rightarrow> error + Record \<times> BytesIO" where
  "FileRecord_read len off b =
     (case read b 4 of (bs, b1) \<Rightarrow>
        (case struct_unpack_i bs of
           Inl e \<Rightarrow> Inl e
         | Inr nl \<Rightarrow>
             (case read b1 32 of (hs, b2) \<Rightarrow>
                (case read b2 (2 * (nl - 1)) of (ns, b3) \<Rightarrow>
                   (case decode_UTF_16 ns of
                      Inl e \<Rightarrow> Inl e
                    | Inr nm \<Rightarrow>
                        (let b4 = seek_cur b3 2;
                             start = tell b4;
                             dl = len - 44 - nl * 2
                         in Inr (FileRecord len off nl (int_from_bytes_big hs) nm start dl,
                                 seek_cur b4 dl)))))))"

definition FreeRecord_read :: "int \<Rightarrow> int \<Rightarrow> BytesIO \<Rightarrow> error + Record \<times> BytesIO" where
  "FreeRecord_read len off b =
     (case read b 8 of (bs, b1) \<Rightarrow>
        (case struct_unpack_q bs of
           Inl e \<Rightarrow> Inl e
         | Inr nf \<Rightarrow> Inr (FreeRecord len off nf, seek_cur b1 (len - 16))))"

text \<open>
  \<open>GGPKFile._read_record\<close>: the length, the tag, the dispatch on the tag, the record's
  own \<open>read\<close>, and the store into \<open>records\<close>.
\<close>

definition GGPKFile_read_record ::
  "(int \<rightharpoonup> Record) \<Rightarrow> BytesIO \<Rightarrow> int \<Rightarrow> error + (int \<rightharpoonup> Record) \<times> BytesIO" where
  "GGPKFile_read_record records ggpkfile off =
     (case read ggpkfile 4 of (ls, b1) \<Rightarrow>
        (case struct_unpack_i ls of
           Inl e \<Rightarrow> Inl e
         | Inr len \<Rightarrow>
             (case read b1 4 of (ts, b2) \<Rightarrow>
                (case decode_ascii ts of
                   Inl e \<Rightarrow> Inl e
                 | Inr tag \<Rightarrow>
                     (case (if tag = str_of ''FILE'' then FileRecord_read len off b2
                            else if tag = str_of ''FREE'' then FreeRecord_read len off b2
                            else if tag = str_of ''PDIR'' then DirectoryRecord_read len off b2
                            else if tag = str_of ''GGPK'' then GGPKRecord_read len off b2
                            else Inl ValueError) of
                        Inl e \<Rightarrow> Inl e
                      | Inr (record, b3) \<Rightarrow> Inr (records(off \<mapsto> record), b3))))))"

text \<open>
  \<open>GGPKFile._read\<close>: the scan. \<open>sz\<close> (the source's \<open>size\<close>) is the length of the buffer; the loop runs while
  \<open>offset < size\<close>, and the next offset is the position the decoder left.
\<close>

partial_function (option) GGPKFile_read_loop ::
  "(int \<rightharpoonup> Record) \<Rightarrow> BytesIO \<Rightarrow> int \<Rightarrow> int \<Rightarrow> (error + (int \<rightharpoonup> Record)) option" where
  "GGPKFile_read_loop records buffer off sz =
     (if off < sz then
        (case GGPKFile_read_record records buffer off of
           Inl e \<Rightarrow> Some (Inl e)
         | Inr (records1, buffer1) \<Rightarrow> GGPKFile_read_loop records1 buffer1 (tell buffer1) sz)
      else Some (Inr records))"

definition GGPKFile_read :: "bytes \<Rightarrow> (error + (int \<rightharpoonup> Record)) option" where
  "GGPKFile_read bs =
     GGPKFile_read_loop Map.empty \<lparr>buf = bs, pos = 0\<rparr> 0 (int (length bs))"

subsection \<open>Directory nodes\<close>

text \<open>
  A \<open>DirectoryNode\<close> object has the slots \<open>children\<close>, \<open>parent\<close>, \<open>record\<close> and
  \<open>hash\<close>. Nodes refer to each other, are compared by identity (\<open>node is stop_at\<close>)
  and are mutated after their creation (\<open>parent.children.append(node)\<close>), so they live
  in a store: a node is its address, the store is the list of the objects created so
  far, and a new object gets the next address. Python has no dangling reference; an
  address is read only where it is below the length of the store.
\<close>

record DirectoryNode =
  children :: "nat list"
  parent :: "nat option"
  node_record :: Record
  hash :: "int option"

type_synonym store = "DirectoryNode list"

text \<open>\<open>DirectoryNode._get_name\<close>, the property \<open>name\<close>.\<close>

definition DirectoryNode_get_name :: "DirectoryNode \<Rightarrow> error + str" where
  "DirectoryNode_get_name node =
     (case record_name (node_record node) of
        Inl e \<Rightarrow> Inl e
      | Inr nm \<Rightarrow> Inr (if nm \<noteq> [] then nm else str_of ''ROOT''))"

text \<open>
  \<open>os.path.split\<close>, as \<open>posixpath\<close> defines it: the tail is what follows the last
  slash, the head is what precedes it, with its trailing slashes removed unless it
  consists of slashes only.
\<close>

definition sep :: nat where
  "sep = 47"

definition os_path_split :: "str \<Rightarrow> str \<times> str" where
  "os_path_split p =
     (let tail = rev (takeWhile (\<lambda>c. c \<noteq> sep) (rev p));
          head = rev (dropWhile (\<lambda>c. c \<noteq> sep) (rev p))
      in (if head \<noteq> [] \<and> head \<noteq> replicate (length head) sep
          then rev (dropWhile (\<lambda>c. c = sep) (rev head)) else head,
          tail))"

text \<open>
  \<open>DirectoryNode.__getitem__\<close>. The first loop splits the path into its segments; it
  does not end on a path that starts with a slash. The second loop walks down the
  children: the \<open>for ... else\<close> takes the first child whose name is the segment and
  returns Python's \<open>None\<close> when there is none.
\<close>

partial_function (option) getitem_split :: "str \<Rightarrow> str list \<Rightarrow> str list option" where
  "getitem_split item path =
     (if item \<noteq> [] then
        (case os_path_split item of (item1, result) \<Rightarrow> getitem_split item1 (result # path))
      else Some path)"

fun getitem_child :: "store \<Rightarrow> nat list \<Rightarrow> str \<Rightarrow> error + nat option" where
  "getitem_child s [] item = Inr None"
| "getitem_child s (child # rest) item =
     (case DirectoryNode_get_name (s ! child) of
        Inl e \<Rightarrow> Inl e
      | Inr nm \<Rightarrow> if nm = item then Inr (Some child) else getitem_child s rest item)"

fun getitem_walk :: "store \<Rightarrow> nat \<Rightarrow> str list \<Rightarrow> error + nat option" where
  "getitem_walk s obj [] = Inr (Some obj)"
| "getitem_walk s obj (item # path) =
     (case getitem_child s (children (s ! obj)) item of
        Inl e \<Rightarrow> Inl e
      | Inr None \<Rightarrow> Inr None
      | Inr (Some child) \<Rightarrow> getitem_walk s child path)"

definition DirectoryNode_getitem :: "store \<Rightarrow> nat \<Rightarrow> str \<Rightarrow> (error + nat option) option" where
  "DirectoryNode_getitem s self item =
     (case getitem_split item [] of
        None \<Rightarrow> None
      | Some path \<Rightarrow> Some (getitem_walk s self path))"

text \<open>
  \<open>DirectoryNode.search\<close>. The compiled regular expression is a parameter: \<open>regex nm\<close>
  says whether \<open>re.search(regex, nm)\<close> finds a match. \<open>q\<close> is the stack of the source:
  \<open>q.pop()\<close> takes its last element, the children are appended in their order. The name
  is read only where the record is of a class that the flags enable.
\<close>

definition search_matches ::
  "store \<Rightarrow> (str \<Rightarrow> bool) \<Rightarrow> bool \<Rightarrow> bool \<Rightarrow> nat \<Rightarrow> error + bool" where
  "search_matches s regex search_files search_directories node =
     (if search_files \<and> is_FileRecord (node_record (s ! node))
         \<or> search_directories \<and> is_DirectoryRecord (node_record (s ! node))
      then (case DirectoryNode_get_name (s ! node) of
              Inl e \<Rightarrow> Inl e
            | Inr nm \<Rightarrow> Inr (regex nm))
      else Inr False)"

partial_function (option) search_loop ::
  "store \<Rightarrow> (str \<Rightarrow> bool) \<Rightarrow> bool \<Rightarrow> bool \<Rightarrow> nat list \<Rightarrow> nat list \<Rightarrow>
     (error + nat list) option" where
  "search_loop s regex search_files search_directories q nodes =
     (if length q > 0 then
        (let node = last q; q1 = butlast q in
           (case search_matches s regex search_files search_directories node of
              Inl e \<Rightarrow> Some (Inl e)
            | Inr m \<Rightarrow>
                search_loop s regex search_files search_directories
                  (q1 @ children (s ! node)) (if m then nodes @ [node] else nodes)))
      else Some (Inr nodes))"

definition DirectoryNode_search ::
  "store \<Rightarrow> nat \<Rightarrow> (str \<Rightarrow> bool) \<Rightarrow> bool \<Rightarrow> bool \<Rightarrow> (error + nat list) option" where
  "DirectoryNode_search s self regex search_files search_directories =
     search_loop s regex search_files search_directories [self] []"

text \<open>
  \<open>DirectoryNode.get_parent\<close>. \<open>n\<close> is a Python integer: a negative \<open>n\<close> never
  becomes 0. The result is the list \<open>nodes\<close> when \<open>make_list\<close> is set and the node
  reached otherwise.
\<close>

datatype parent_result = Node nat | Nodes "nat list"

partial_function (option) get_parent_loop ::
  "store \<Rightarrow> nat option \<Rightarrow> bool \<Rightarrow> int \<Rightarrow> nat list \<Rightarrow> nat \<Rightarrow> (nat list \<times> nat) option" where
  "get_parent_loop s stop_at make_list n nodes node =
     (if n \<noteq> 0 then
        (case parent (s ! node) of
           None \<Rightarrow> Some (nodes, node)
         | Some p \<Rightarrow>
             if Some node = stop_at then Some (nodes, node)
             else get_parent_loop s stop_at make_list (n - 1)
                    (if make_list then node # nodes else nodes) p)
      else Some (nodes, node))"

definition DirectoryNode_get_parent ::
  "store \<Rightarrow> nat \<Rightarrow> int \<Rightarrow> nat option \<Rightarrow> bool \<Rightarrow> parent_result option" where
  "DirectoryNode_get_parent s self n stop_at make_list =
     map_option (\<lambda>(nodes, node). if make_list then Nodes nodes else Node node)
       (get_parent_loop s stop_at make_list n [] self)"

subsection \<open>Building the directory tree\<close>

text \<open>
  \<open>GGPKFile.directory_build\<close>, the selection of the root: the loop
  \<open>for offset in ggpkrecord.offsets\<close> binds \<open>record\<close> to the table's entry at each
  offset and stops at the first \<open>DirectoryRecord\<close>. The third argument is the binding
  of the local variable \<open>record\<close>, which has none before the first iteration.
\<close>

fun build_find_root ::
  "(int \<rightharpoonup> Record) \<Rightarrow> int list \<Rightarrow> Record option \<Rightarrow> error + Record option" where
  "build_find_root records [] record = Inr record"
| "build_find_root records (off # offs) record =
     (case records off of
        None \<Rightarrow> Inl KeyError
      | Some r \<Rightarrow> if is_DirectoryRecord r then Inr (Some r) else build_find_root records offs (Some r))"

definition build_root :: "(int \<rightharpoonup> Record) \<Rightarrow> error + Record" where
  "build_root records =
     (case records 0 of
        None \<Rightarrow> Inl KeyError
      | Some ggpkrecord \<Rightarrow>
          (case record_offsets ggpkrecord of
             Inl e \<Rightarrow> Inl e
           | Inr offs \<Rightarrow>
               (case build_find_root records offs None of
                  Inl e \<Rightarrow> Inl e
                | Inr None \<Rightarrow> Inl UnboundLocalError
                | Inr (Some record) \<Rightarrow>
                    if \<not> is_DirectoryRecord record
                    then Inl (ParserError ''GGPKRecord does not contain a DirectoryRecord'')
                    else Inr record)))"

text \<open>
  The work list \<open>l\<close> holds triples \<open>(offset, hash, parent)\<close>; \<open>l.pop()\<close> takes the last
  one, and its \<open>IndexError\<close> on the empty list ends the loop. Each turn creates a node,
  appends it to the children of its parent and, for a \<open>DirectoryRecord\<close>, appends the
  record's entries to the work list.
\<close>

definition build_pending :: "DirectoryRecordEntry list \<Rightarrow> nat \<Rightarrow> (int \<times> int \<times> nat) list" where
  "build_pending es node = map (\<lambda>e. (entry_offset e, entry_hash e, node)) es"

definition build_node :: "store \<Rightarrow> Record \<Rightarrow> int \<Rightarrow> nat \<Rightarrow> store" where
  "build_node s record h p =
     (let s1 = s @ [\<lparr>children = [], parent = Some p, node_record = record, hash = Some h\<rparr>]
      in s1[p := (s1 ! p)\<lparr>children := children (s1 ! p) @ [length s]\<rparr>])"

partial_function (option) build_loop ::
  "(int \<rightharpoonup> Record) \<Rightarrow> (int \<times> int \<times> nat) list \<Rightarrow> store \<Rightarrow> (error + store) option" where
  "build_loop records l s =
     (if l = [] then Some (Inr s)
      else
        (case last l of (off, h, p) \<Rightarrow>
           (case records off of
              None \<Rightarrow> Some (Inl KeyError)
            | Some record \<Rightarrow>
                build_loop records
                  (butlast l @
                     (if is_DirectoryRecord record
                      then build_pending (entries record) (length s) else []))
                  (build_node s record h p))))"

text \<open>
  \<open>GGPKFile.directory_build\<close>. The result is the store after the build and the node
  returned; when \<open>parent\<close> is \<open>None\<close> that node is new, has neither parent nor hash, and
  is what the source assigns to \<open>self.directory\<close>.
\<close>

definition GGPKFile_directory_build ::
  "(int \<rightharpoonup> Record) \<Rightarrow> store \<Rightarrow> nat option \<Rightarrow> (error + store \<times> nat) option" where
  "GGPKFile_directory_build records s parent_arg =
     (if records = Map.empty
      then Some (Inl (ParserError ''No records - perform .read() first''))
      else
        (case (case parent_arg of
                 None \<Rightarrow>
                   (case build_root records of
                      Inl e \<Rightarrow> Inl e
                    | Inr record \<Rightarrow>
                        Inr (s @ [\<lparr>children = [], parent = None, node_record = record,
                                   hash = None\<rparr>], length s))
               | Some p \<Rightarrow> Inr (s, p)) of
           Inl e \<Rightarrow> Some (Inl e)
         | Inr (s1, root) \<Rightarrow>
             (case record_entries (node_record (s1 ! root)) of
                Inl e \<Rightarrow> Some (Inl e)
              | Inr es \<Rightarrow>
                  (case build_loop records (build_pending es root) s1 of
                     None \<Rightarrow> None
                   | Some (Inl e) \<Rightarrow> Some (Inl e)
                   | Some (Inr s2) \<Rightarrow> Some (Inr (s2, root))))))"

section \<open>Notions and examples for the properties\<close>

subsection \<open>The tags and the error of an unknown tag\<close>

definition ascii_bytes :: "string \<Rightarrow> bytes" where
  "ascii_bytes s = map of_char s"

text \<open>The four tags that \<open>_read_record\<close> dispatches on.\<close>

definition known_tags :: "bytes list" where
  "known_tags =
     [ascii_bytes ''FILE'', ascii_bytes ''FREE'', ascii_bytes ''PDIR'', ascii_bytes ''GGPK'']"


subsection \<open>A small archive\<close>

text \<open>
  The table of an archive of four records (a \<open>GGPKRecord\<close> that refers to a
  \<open>FreeRecord\<close> and to the root directory, the root directory with one entry, and a
  file whose name is empty), and the store that \<open>directory_build\<close> makes of it.
\<close>

definition example_records :: "int \<rightharpoonup> Record" where
  "example_records =
     [0 \<mapsto> GGPKRecord 28 0 [136, 28],
      28 \<mapsto> DirectoryRecord 62 28 1 1 0 [] [DirectoryRecordEntry 7 90],
      90 \<mapsto> FileRecord 46 90 1 0 [] 136 0,
      136 \<mapsto> FreeRecord 16 136 0]"

definition example_store :: store where
  "example_store =
     [\<lparr>children = [1], parent = None,
        node_record = DirectoryRecord 62 28 1 1 0 [] [DirectoryRecordEntry 7 90],
        hash = None\<rparr>,
      \<lparr>children = [], parent = Some 0,
        node_record = FileRecord 46 90 1 0 [] 136 0, hash = Some 7\<rparr>]"

text \<open>
  A \<open>FILE\<close> record of 100 bytes: the header, \<open>name_length = 6\<close>, 32 bytes of hash,
  the name \<open>hello\<close> in UTF-16LE with its terminator, and 44 bytes of content.
\<close>

definition example_file_bytes :: bytes where
  "example_file_bytes =
     [100, 0, 0, 0, 70, 73, 76, 69, 6, 0, 0, 0] @ replicate 32 0 @
     [104, 0, 101, 0, 108, 0, 108, 0, 111, 0, 0, 0] @ replicate 44 170"

subsection \<open>Well-formed streams\<close>

text \<open>
  A record of \<open>len\<close> bytes at offset \<open>off\<close> of the stream is well formed when it
  lies within the stream, its length field is \<open>len\<close>, its tag is one of the four, and
  its fields fill exactly \<open>len\<close> bytes: a \<open>FILE\<close> record has room for its header of
  44 bytes and its name, a \<open>FREE\<close> record for its 16 bytes, a \<open>PDIR\<close> record is
  48 bytes of header, the name and 12 bytes for each entry, a \<open>GGPK\<close> record is 12
  bytes and 8 for each offset; a name has at least its terminator and decodes. A
  stream of well-formed back-to-back records of the lengths \<open>lens\<close> starts a record
  where the one before ends, and ends with the last one.
\<close>

definition field_ok :: "error + str \<Rightarrow> bool" where
  "field_ok x = (case x of Inl e \<Rightarrow> False | Inr v \<Rightarrow> True)"

definition well_formed_record :: "bytes \<Rightarrow> nat \<Rightarrow> nat \<Rightarrow> bool" where
  "well_formed_record bs off len =
     (off + len \<le> length bs \<and> 12 \<le> len \<and> len < 2 ^ 31 \<and>
      le_uint (take 4 (drop off bs)) = int len \<and>
      (let tag = take 4 (drop (off + 4) bs);
           f1 = le_uint (take 4 (drop (off + 8) bs));
           f2 = le_uint (take 4 (drop (off + 12) bs))
       in if tag = ascii_bytes ''FILE'' then
            1 \<le> f1 \<and> 44 + 2 * f1 \<le> int len \<and>
            field_ok (decode_UTF_16 (take (nat (2 * (f1 - 1))) (drop (off + 44) bs)))
          else if tag = ascii_bytes ''FREE'' then 16 \<le> len
          else if tag = ascii_bytes ''PDIR'' then
            1 \<le> f1 \<and> int len = 48 + 2 * f1 + 12 * f2 \<and>
            field_ok (decode_UTF_16_LE (take (nat (2 * (f1 - 1))) (drop (off + 48) bs)))
          else if tag = ascii_bytes ''GGPK'' then int len = 12 + 8 * f1
          else False))"

fun well_formed_records :: "bytes \<Rightarrow> nat \<Rightarrow> nat list \<Rightarrow> bool" where
  "well_formed_records bs off [] = (off = length bs)"
| "well_formed_records bs off (len # lens) =
     (well_formed_record bs off len \<and> well_formed_records bs (off + len) lens)"

fun offsets_from :: "nat \<Rightarrow> nat list \<Rightarrow> nat list" where
  "offsets_from off [] = []"
| "offsets_from off (len # lens) = off # offsets_from (off + len) lens"

definition example_stream :: bytes where
  "example_stream =
     [40, 0, 0, 0, 70, 82, 69, 69] @ replicate 32 0 @
     [24, 0, 0, 0, 70, 82, 69, 69] @ replicate 16 0 @
     [56, 0, 0, 0, 70, 73, 76, 69, 1, 0, 0, 0] @ replicate 32 0 @ [0, 0] @ replicate 10 170"

subsection \<open>Reference cycles\<close>

text \<open>
  A table has no dangling entry when every entry of every directory record refers to
  a key of the table. A set \<open>C\<close> of offsets is cyclic when each of them is the key of
  a directory record that has an entry referring into \<open>C\<close>: from a member of \<open>C\<close>
  the chain of entry offsets can be followed within \<open>C\<close> for ever, so in the finite
  table of an archive it revisits an offset. The offsets of a reference cycle, and of a
  chain of directories that leads into one, form such a set.
\<close>

definition no_dangling :: "(int \<rightharpoonup> Record) \<Rightarrow> bool" where
  "no_dangling records =
     (\<forall>off r. records off = Some r \<and> is_DirectoryRecord r \<longrightarrow>
        (\<forall>e\<in>set (entries r). records (entry_offset e) \<noteq> None))"

definition cyclic :: "(int \<rightharpoonup> Record) \<Rightarrow> int set \<Rightarrow> bool" where
  "cyclic records C =
     (\<forall>off\<in>C. \<exists>r. records off = Some r \<and> is_DirectoryRecord r \<and>
        (\<exists>e\<in>set (entries r). entry_offset e \<in> C))"

text \<open>
  Two tables with a cycle: a root directory that lists itself, and a root directory
  with a subdirectory \<open>a\<close> that contains \<open>b\<close>, which contains \<open>a\<close> again.
\<close>

definition self_cycle_records :: "int \<rightharpoonup> Record" where
  "self_cycle_records =
     [0 \<mapsto> GGPKRecord 20 0 [20],
      20 \<mapsto> DirectoryRecord 62 20 1 1 0 [] [DirectoryRecordEntry 7 20]]"

definition two_cycle_records :: "int \<rightharpoonup> Record" where
  "two_cycle_records =
     [0 \<mapsto> GGPKRecord 20 0 [20],
      20 \<mapsto> DirectoryRecord 62 20 1 1 0 [] [DirectoryRecordEntry 7 82],
      82 \<mapsto> DirectoryRecord 64 82 2 1 0 [97] [DirectoryRecordEntry 8 146],
      146 \<mapsto> DirectoryRecord 64 146 2 1 0 [98] [DirectoryRecordEntry 9 82]]"

subsection \<open>Trees in the store\<close>

text \<open>
  The nodes are created by \<open>directory_build\<close> only, which creates a child after its
  parent and appends it to the children of that parent once. So the store holds a
  tree when, for every node, the children are distinct, each child has a higher
  address than the node, and the parent link of each child is the node.
\<close>

definition tree_store :: "store \<Rightarrow> bool" where
  "tree_store s =
     list_all (\<lambda>i. distinct (children (s ! i)) \<and>
                 list_all (\<lambda>c. i < c \<and> c < length s \<and> parent (s ! c) = Some i)
                   (children (s ! i)))
       [0..<length s]"

text \<open>The nodes of the subtree of \<open>self\<close>: the nodes that \<open>search\<close> and \<open>walk\<close> reach.\<close>

inductive_set subtree :: "store \<Rightarrow> nat \<Rightarrow> nat set" for s :: store and self :: nat where
  self: "self \<in> subtree s self"
| child: "n \<in> subtree s self \<Longrightarrow> c \<in> set (children (s ! n)) \<Longrightarrow> c \<in> subtree s self"

text \<open>
  What \<open>search\<close> is to select: the nodes whose record is of a class that the flags
  enable and whose display name the pattern matches.
\<close>

definition search_selects :: "store \<Rightarrow> (str \<Rightarrow> bool) \<Rightarrow> bool \<Rightarrow> bool \<Rightarrow> nat \<Rightarrow> bool" where
  "search_selects s regex search_files search_directories n =
     ((search_files \<and> is_FileRecord (node_record (s ! n)) \<or>
       search_directories \<and> is_DirectoryRecord (node_record (s ! n))) \<and>
      (\<exists>nm. DirectoryNode_get_name (s ! n) = Inr nm \<and> regex nm))"

text \<open>
  \<open>re.search\<close> for a pattern that is \<open>^\<close> followed by literal text (no flags):
  there is a match exactly when the name starts with the text.
\<close>

definition re_search_prefix :: "str \<Rightarrow> str \<Rightarrow> bool" where
  "re_search_prefix lit nm = (take (length lit) nm = lit)"

text \<open>
  An archive with the files \<open>AbstractRing.ot\<close> and \<open>AbstractAmulet.ot\<close> and the
  directory \<open>AbstractStuff\<close> in its root directory, and the store that
  \<open>directory_build\<close> makes of it.
\<close>

definition search_records :: "int \<rightharpoonup> Record" where
  "search_records =
     [0 \<mapsto> GGPKRecord 28 0 [28, 346],
      28 \<mapsto> DirectoryRecord 86 28 1 3 0 []
              [DirectoryRecordEntry 11 114, DirectoryRecordEntry 12 190,
               DirectoryRecordEntry 13 270],
      114 \<mapsto> FileRecord 76 114 16 0 (str_of ''AbstractRing.ot'') 190 0,
      190 \<mapsto> FileRecord 80 190 18 0 (str_of ''AbstractAmulet.ot'') 270 0,
      270 \<mapsto> DirectoryRecord 76 270 14 0 0 (str_of ''AbstractStuff'') [],
      346 \<mapsto> FreeRecord 16 346 0]"

definition search_store :: store where
  "search_store =
     [\<lparr>children = [1, 2, 3], parent = None,
        node_record = DirectoryRecord 86 28 1 3 0 []
          [DirectoryRecordEntry 11 114, DirectoryRecordEntry 12 190,
           DirectoryRecordEntry 13 270],
        hash = None\<rparr>,
      \<lparr>children = [], parent = Some 0,
        node_record = DirectoryRecord 76 270 14 0 0 (str_of ''AbstractStuff'') [],
        hash = Some 13\<rparr>,
      \<lparr>children = [], parent = Some 0,
        node_record = FileRecord 80 190 18 0 (str_of ''AbstractAmulet.ot'') 270 0,
        hash = Some 12\<rparr>,
      \<lparr>children = [], parent = Some 0,
        node_record = FileRecord 76 114 16 0 (str_of ''AbstractRing.ot'') 190 0,
        hash = Some 11\<rparr>]"

subsection \<open>The tree of an archive and the paths of its nodes\<close>

text \<open>
  The store of a tree that has its root at address 0: beside the conditions of
  \<open>tree_store\<close>, the root is the only node without a parent, and every other node
  is among the children of its parent, which has a lower address.
\<close>

definition rooted_store :: "store \<Rightarrow> bool" where
  "rooted_store s =
     (s \<noteq> [] \<and> tree_store s \<and>
      list_all (\<lambda>i. case parent (s ! i) of
                   None \<Rightarrow> i = 0
                 | Some p \<Rightarrow> p < i \<and> i \<in> set (children (s ! p)))
        [0..<length s])"

text \<open>
  A store is well named when, among the children of each node, the display names are
  defined and distinct and contain no path separator.
\<close>

definition well_named :: "store \<Rightarrow> bool" where
  "well_named s =
     list_all (\<lambda>i. distinct (map (\<lambda>c. DirectoryNode_get_name (s ! c)) (children (s ! i))) \<and>
                 list_all (\<lambda>c. case DirectoryNode_get_name (s ! c) of
                                Inl e \<Rightarrow> False
                              | Inr nm \<Rightarrow> sep \<notin> set nm)
                   (children (s ! i)))
       [0..<length s]"

text \<open>
  The path of a node: the display names of the nodes that
  \<open>get_parent(make_list=True)\<close> lists (the nodes from the child of the root down to the
  node itself), joined by the path separator.
\<close>

fun path_join :: "str list \<Rightarrow> str" where
  "path_join [] = []"
| "path_join [x] = x"
| "path_join (x # y # ys) = x @ sep # path_join (y # ys)"

definition path_of :: "store \<Rightarrow> nat \<Rightarrow> str option" where
  "path_of s node =
     (case DirectoryNode_get_parent s node (- 1) None True of
        Some (Nodes ns) \<Rightarrow>
          if list_ex (\<lambda>n. isl (DirectoryNode_get_name (s ! n))) ns then None
          else Some (path_join (map (\<lambda>n. projr (DirectoryNode_get_name (s ! n))) ns))
      | _ \<Rightarrow> None)"

text \<open>
  An archive of 281 bytes: the \<open>GGPK\<close> record, the root directory with the file
  \<open>a\<close> and the directory \<open>d\<close>, which holds the file \<open>b\<close>, and a \<open>FREE\<close>
  record; the table that the scan makes of it and the store that \<open>directory_build\<close>
  makes of the table.
\<close>

definition archive_bytes :: bytes where
  "archive_bytes =
     [28, 0, 0, 0, 71, 71, 80, 75, 2, 0, 0, 0,
      28, 0, 0, 0, 0, 0, 0, 0, 9, 1, 0, 0, 0, 0, 0, 0] @
     [74, 0, 0, 0, 80, 68, 73, 82, 1, 0, 0, 0, 2, 0, 0, 0] @ replicate 32 0 @
     [0, 0, 11, 0, 0, 0, 102, 0, 0, 0, 0, 0, 0, 0, 12, 0, 0, 0, 153, 0, 0, 0, 0, 0, 0, 0] @
     [51, 0, 0, 0, 70, 73, 76, 69, 2, 0, 0, 0] @ replicate 32 0 @
     [97, 0, 0, 0, 1, 2, 3] @
     [64, 0, 0, 0, 80, 68, 73, 82, 2, 0, 0, 0, 1, 0, 0, 0] @ replicate 32 0 @
     [100, 0, 0, 0, 13, 0, 0, 0, 217, 0, 0, 0, 0, 0, 0, 0] @
     [48, 0, 0, 0, 70, 73, 76, 69, 2, 0, 0, 0] @ replicate 32 0 @
     [98, 0, 0, 0] @
     [16, 0, 0, 0, 70, 82, 69, 69, 0, 0, 0, 0, 0, 0, 0, 0]"

definition archive_records :: "int \<rightharpoonup> Record" where
  "archive_records =
     [0 \<mapsto> GGPKRecord 28 0 [28, 265],
      28 \<mapsto> DirectoryRecord 74 28 1 2 0 []
              [DirectoryRecordEntry 11 102, DirectoryRecordEntry 12 153],
      102 \<mapsto> FileRecord 51 102 2 0 (str_of ''a'') 150 3,
      153 \<mapsto> DirectoryRecord 64 153 2 1 0 (str_of ''d'') [DirectoryRecordEntry 13 217],
      217 \<mapsto> FileRecord 48 217 2 0 (str_of ''b'') 265 0,
      265 \<mapsto> FreeRecord 16 265 0]"

definition archive_store :: store where
  "archive_store =
     [\<lparr>children = [1, 3], parent = None,
        node_record = DirectoryRecord 74 28 1 2 0 []
          [DirectoryRecordEntry 11 102, DirectoryRecordEntry 12 153],
        hash = None\<rparr>,
      \<lparr>children = [2], parent = Some 0,
        node_record = DirectoryRecord 64 153 2 1 0 (str_of ''d'') [DirectoryRecordEntry 13 217],
        hash = Some 12\<rparr>,
      \<lparr>children = [], parent = Some 1,
        node_record = FileRecord 48 217 2 0 (str_of ''b'') 265 0, hash = Some 13\<rparr>,
      \<lparr>children = [], parent = Some 0,
        node_record = FileRecord 51 102 2 0 (str_of ''a'') 150 3, hash = Some 11\<rparr>]"

section \<open>Properties\<close>

subsection \<open>Lookup of the empty path\<close>

text \<open>
  C10. For every node of every store, indexing the node with the empty string returns
  the node itself: the splitting loop is not entered, the list of segments is empty,
  and the walk returns the object it started from.
\<close>

theorem getitem_empty_path: "DirectoryNode_getitem s self [] = Some (Inr (Some self))"
  by (simp add: DirectoryNode_getitem_def getitem_split.simps)

subsection \<open>The example archive\<close>

lemma str_ROOT: "str_of ''ROOT'' = [82, 79, 79, 84]"
  by (simp add: str_of_def)

lemma example_build:
  "GGPKFile_directory_build example_records [] None = Some (Inr (example_store, 0))"
  apply (simp add: GGPKFile_directory_build_def build_root_def record_offsets_def
        record_entries_def build_pending_def example_records_def)
  apply (simp add: build_loop.simps build_node_def build_pending_def example_store_def)
  done

subsection \<open>The display name\<close>

text \<open>
  C6 (as amended). For every node that wraps a \<open>DirectoryRecord\<close> or a \<open>FileRecord\<close>,
  the display name is the record's name when that name is not empty and the literal
  \<open>ROOT\<close> when it is empty; the parent link plays no part. So the display name is
  \<open>ROOT\<close> exactly when the record's name is empty or is itself \<open>ROOT\<close>.
\<close>

theorem get_name_by_record_name:
  "is_DirectoryRecord (node_record node) \<or> is_FileRecord (node_record node) \<Longrightarrow>
   DirectoryNode_get_name node =
     Inr (if rec_name (node_record node) = [] then str_of ''ROOT''
          else rec_name (node_record node)) \<and>
   (DirectoryNode_get_name node = Inr (str_of ''ROOT'') \<longleftrightarrow>
      rec_name (node_record node) = [] \<or> rec_name (node_record node) = str_of ''ROOT'')"
  by (auto simp: DirectoryNode_get_name_def record_name_def str_ROOT)

theorem get_name_by_record_name_witness:
  "DirectoryNode_get_name (example_store ! 1) = Inr (str_of ''ROOT'') \<and>
   rec_name (node_record (example_store ! 1)) = []"
  using get_name_by_record_name [of "example_store ! 1"]
  by (simp add: example_store_def)

text \<open>
  The claim as stated fails: in the tree built from the example archive the node of the
  file has a parent, and its display name is \<open>ROOT\<close>.
\<close>

theorem get_name_ROOT_counterexample:
  "GGPKFile_directory_build example_records [] None = Some (Inr (example_store, 0)) \<and>
   parent (example_store ! 1) = Some 0 \<and>
   DirectoryNode_get_name (example_store ! 1) = Inr (str_of ''ROOT'')"
  using example_build
  by (simp add: example_store_def DirectoryNode_get_name_def record_name_def)

subsection \<open>The list of ancestors\<close>

text \<open>
  C7. With \<open>make_list\<close> set, the docstring of \<open>get_parent\<close> promises the list
  \<open>[n-th parent, (n-1)-th parent, ..., self]\<close>. The loop inserts a node into the list
  only before it climbs from it, so the node it stops at is never in the list: for the
  file of the example archive, whose parent is the root, the list is the file alone
  (for \<open>n = 1\<close> and for \<open>n = -1\<close>), and for the root it is empty.
\<close>

theorem get_parent_list_without_stopping_ancestor:
  "parent (example_store ! 1) = Some 0 \<and>
   DirectoryNode_get_parent example_store 1 1 None True = Some (Nodes [1]) \<and>
   DirectoryNode_get_parent example_store 1 (- 1) None True = Some (Nodes [1]) \<and>
   DirectoryNode_get_parent example_store 0 (- 1) None True = Some (Nodes [])"
  by (simp add: DirectoryNode_get_parent_def get_parent_loop.simps example_store_def)

subsection \<open>The root of the tree\<close>

lemma build_node_length: "length (build_node s r h p) = Suc (length s)"
  by (simp add: build_node_def Let_def)

lemma build_node_old:
  "i < length s \<Longrightarrow>
     node_record (build_node s r h p ! i) = node_record (s ! i) \<and>
     parent (build_node s r h p ! i) = parent (s ! i) \<and>
     hash (build_node s r h p ! i) = hash (s ! i)"
  by (cases "i = p") (simp_all add: build_node_def Let_def nth_append)

text \<open>The loop only adds nodes and children: record, parent and hash of a node stay.\<close>

lemma build_loop_keeps:
  assumes "build_loop records l s = Some y"
  shows "\<forall>s'. y = Inr s' \<longrightarrow> length s \<le> length s' \<and>
           (\<forall>i<length s. node_record (s' ! i) = node_record (s ! i) \<and>
              parent (s' ! i) = parent (s ! i) \<and> hash (s' ! i) = hash (s ! i))"
proof (rule build_loop.raw_induct
    [where P = "\<lambda>records l s y. \<forall>s'. y = Inr s' \<longrightarrow> length s \<le> length s' \<and>
           (\<forall>i<length s. node_record (s' ! i) = node_record (s ! i) \<and>
              parent (s' ! i) = parent (s ! i) \<and> hash (s' ! i) = hash (s ! i))",
     OF _ assms], goal_cases)
  case (1 loop records l s y)
  show ?case
  proof (cases "l = []")
    case True
    with 1(2) show ?thesis by auto
  next
    case False
    obtain off h p where lst: "last l = (off, h, p)"
      by (cases "last l") auto
    show ?thesis
    proof (cases "records off")
      case None
      with 1(2) False lst show ?thesis by auto
    next
      case (Some r)
      let ?l = "butlast l @
        (if is_DirectoryRecord r then build_pending (entries r) (length s) else [])"
      from 1(2) False lst Some have "loop records ?l (build_node s r h p) = Some y"
        by simp
      from 1(1)[OF this] show ?thesis
        by (auto simp: build_node_length build_node_old)
    qed
  qed
qed

lemma find_root_skip:
  "\<forall>off\<in>set pre. \<exists>r. records off = Some r \<and> \<not> is_DirectoryRecord r \<Longrightarrow>
   build_find_root records (pre @ rest) cur =
     build_find_root records rest (if pre = [] then cur else records (last pre))"
  by (induction pre arbitrary: cur) auto

lemma build_root_first_directory:
  assumes "records 0 = Some (GGPKRecord len off (pre @ d # post))"
      and "\<forall>off\<in>set pre. \<exists>r. records off = Some r \<and> \<not> is_DirectoryRecord r"
      and "records d = Some r" and "is_DirectoryRecord r"
  shows "build_root records = Inr r"
  using assms by (simp add: build_root_def record_offsets_def find_root_skip)

lemma build_root_dangling:
  assumes "records 0 = Some (GGPKRecord len off (pre @ d # post))"
      and "\<forall>off\<in>set pre. \<exists>r. records off = Some r \<and> \<not> is_DirectoryRecord r"
      and "records d = None"
  shows "build_root records = Inl KeyError"
  using assms by (simp add: build_root_def record_offsets_def find_root_skip)

lemma build_root_no_directory:
  assumes "records 0 = Some (GGPKRecord len off pre)" and "pre \<noteq> []"
      and "\<forall>off\<in>set pre. \<exists>r. records off = Some r \<and> \<not> is_DirectoryRecord r"
  shows "build_root records = Inl (ParserError ''GGPKRecord does not contain a DirectoryRecord'')"
proof -
  from assms(2,3) obtain r where "records (last pre) = Some r" "\<not> is_DirectoryRecord r"
    by (meson last_in_set)
  with assms find_root_skip[OF assms(3), of "[]" None] show ?thesis
    by (simp add: build_root_def record_offsets_def)
qed

lemma directory_build_root_node:
  assumes "build_root records = Inr r"
      and "GGPKFile_directory_build records [] None = Some (Inr (s, root))"
  shows "root = 0 \<and> node_record (s ! root) = r \<and> parent (s ! root) = None \<and>
         hash (s ! root) = None"
proof -
  let ?s0 = "[\<lparr>children = [], parent = None, node_record = r, hash = None\<rparr>]"
  from assms obtain es where
    "build_loop records (build_pending es 0) ?s0 = Some (Inr s)" and "root = 0"
    by (auto simp: GGPKFile_directory_build_def split: if_splits sum.splits option.splits)
  with build_loop_keeps[OF this(1)] show ?thesis by simp
qed

text \<open>
  C5 (as amended). On a table whose entry at offset 0 is a \<open>GGPKRecord\<close>, let \<open>pre\<close>
  be child offsets that are keys of the table and refer to records that are not
  directories. If the child offsets are \<open>pre\<close> followed by an offset \<open>d\<close> that refers
  to a \<open>DirectoryRecord\<close>, that record is selected, and the root of every tree that
  the build returns is the first node of the store, wraps it and has no parent. If the
  child offsets are \<open>pre\<close> and not empty, the build fails with the \<open>ParserError\<close> of
  the missing root directory. If \<open>pre\<close> is followed by an offset that is not a key of
  the table, the build fails with \<open>KeyError\<close>.
\<close>

theorem directory_build_root_selection:
  assumes "records 0 = Some (GGPKRecord len off offs)"
      and "\<forall>off\<in>set pre. \<exists>r. records off = Some r \<and> \<not> is_DirectoryRecord r"
  shows "(offs = pre @ d # post \<and> records d = Some r \<and> is_DirectoryRecord r \<longrightarrow>
            build_root records = Inr r \<and>
            (\<forall>s root. GGPKFile_directory_build records [] None = Some (Inr (s, root)) \<longrightarrow>
               root = 0 \<and> node_record (s ! root) = r \<and> parent (s ! root) = None)) \<and>
         (offs = pre \<and> pre \<noteq> [] \<longrightarrow>
            GGPKFile_directory_build records [] None =
              Some (Inl (ParserError ''GGPKRecord does not contain a DirectoryRecord''))) \<and>
         (offs = pre @ d # post \<and> records d = None \<longrightarrow>
            GGPKFile_directory_build records [] None = Some (Inl KeyError))"
proof (intro conjI impI allI)
  assume a: "offs = pre @ d # post \<and> records d = Some r \<and> is_DirectoryRecord r"
  with assms show b: "build_root records = Inr r"
    by (simp add: build_root_first_directory)
  fix s root
  assume "GGPKFile_directory_build records [] None = Some (Inr (s, root))"
  from directory_build_root_node[OF b this]
  show "root = 0" "node_record (s ! root) = r" "parent (s ! root) = None"
    by auto
next
  assume "offs = pre \<and> pre \<noteq> []"
  with assms have
    "build_root records = Inl (ParserError ''GGPKRecord does not contain a DirectoryRecord'')"
    by (simp add: build_root_no_directory)
  moreover from assms(1) have "records \<noteq> Map.empty"
    by auto
  ultimately show "GGPKFile_directory_build records [] None =
      Some (Inl (ParserError ''GGPKRecord does not contain a DirectoryRecord''))"
    by (simp add: GGPKFile_directory_build_def)
next
  assume "offs = pre @ d # post \<and> records d = None"
  with assms have "build_root records = Inl KeyError"
    by (simp add: build_root_dangling)
  moreover from assms(1) have "records \<noteq> Map.empty"
    by auto
  ultimately show "GGPKFile_directory_build records [] None = Some (Inl KeyError)"
    by (simp add: GGPKFile_directory_build_def)
qed

theorem directory_build_root_selection_witness:
  "build_root example_records =
     Inr (DirectoryRecord 62 28 1 1 0 [] [DirectoryRecordEntry 7 90]) \<and>
   GGPKFile_directory_build example_records [] None = Some (Inr (example_store, 0)) \<and>
   node_record (example_store ! 0) =
     DirectoryRecord 62 28 1 1 0 [] [DirectoryRecordEntry 7 90] \<and>
   GGPKFile_directory_build
     [0 \<mapsto> GGPKRecord 20 0 [20], 20 \<mapsto> FreeRecord 16 20 0] [] None =
     Some (Inl (ParserError ''GGPKRecord does not contain a DirectoryRecord'')) \<and>
   GGPKFile_directory_build
     [0 \<mapsto> GGPKRecord 28 0 [28, 44], 28 \<mapsto> FreeRecord 16 28 0] [] None =
     Some (Inl KeyError)"
  using directory_build_root_selection
          [of example_records 28 0 "[136, 28]" "[136]" 28 "[]"
              "DirectoryRecord 62 28 1 1 0 [] [DirectoryRecordEntry 7 90]"]
        directory_build_root_selection
          [of "[0 \<mapsto> GGPKRecord 20 0 [20], 20 \<mapsto> FreeRecord 16 20 0]" 20 0 "[20]" "[20]"]
        directory_build_root_selection
          [of "[0 \<mapsto> GGPKRecord 28 0 [28, 44], 28 \<mapsto> FreeRecord 16 28 0]"
              28 0 "[28, 44]" "[28]" 44 "[]"]
        example_build
  by (simp add: example_records_def)

text \<open>
  The claim as stated fails on a table whose only child offset is not a key: no child
  offset refers to a \<open>DirectoryRecord\<close>, and the build fails with \<open>KeyError\<close>, not
  with the \<open>ParserError\<close> of the missing root directory.
\<close>

theorem directory_build_dangling_root_counterexample:
  "GGPKFile_directory_build [0 \<mapsto> GGPKRecord 20 0 [20]] [] None = Some (Inl KeyError)"
  by (simp add: GGPKFile_directory_build_def build_root_def record_offsets_def)

subsection \<open>The dispatch on the tag\<close>











lemma map_unat_eq: "(map unat xs = map unat (ys :: bytes)) = (xs = ys)"
  by (rule inj_map_eq_map) (simp add: inj_on_def word_unat_eq_iff)

lemma str_of_ascii_bytes:
  "str_of ''FILE'' = map unat (ascii_bytes ''FILE'')"
  "str_of ''FREE'' = map unat (ascii_bytes ''FREE'')"
  "str_of ''PDIR'' = map unat (ascii_bytes ''PDIR'')"
  "str_of ''GGPK'' = map unat (ascii_bytes ''GGPK'')"
  by (simp_all add: str_of_def ascii_bytes_def)

lemma known_tags_ascii: "ts \<in> set known_tags \<Longrightarrow> list_all (\<lambda>b. b < 128) ts"
  by (auto simp: known_tags_def ascii_bytes_def)



subsection \<open>The extent of a file's content\<close>

lemma le_uint_replicate_zero: "le_uint (replicate n 0) = 0"
  by (induction n) simp_all

text \<open>
  C4. For every \<open>FileRecord\<close> that \<open>FileRecord.read\<close> returns, \<open>name_length\<close> is the
  decoded field, \<open>data_length\<close> is the total length minus 44 minus twice
  \<open>name_length\<close>, and \<open>data_start\<close> is the position of the cursor after the name has
  been read and the two bytes of its terminator have been skipped; where the name
  field lies within the buffer, that is 36 plus twice \<open>name_length\<close> bytes after the
  payload's start (44 plus twice \<open>name_length\<close> after the record's start).
\<close>

theorem FileRecord_read_data_length:
  assumes "FileRecord_read len off b = Inr (r, b')"
  shows "is_FileRecord r \<and> rec_length r = len \<and>
         struct_unpack_i (fst (read b 4)) = Inr (name_length r) \<and>
         data_length r = rec_length r - 44 - 2 * name_length r \<and>
         data_start r =
           tell (seek_cur (snd (read (snd (read (snd (read b 4)) 32))
                                  (2 * (name_length r - 1)))) 2) \<and>
         (1 \<le> name_length r \<and>
          int (pos b) + 36 + 2 * name_length r \<le> int (length (buf b)) \<longrightarrow>
            data_start r = int (pos b) + 36 + 2 * name_length r)"
proof -
  obtain bs b1 where r1: "read b 4 = (bs, b1)" by (cases "read b 4")
  with assms obtain nl where nl: "struct_unpack_i bs = Inr nl"
    by (auto simp: FileRecord_read_def split: sum.splits)
  obtain hs b2 where r2: "read b1 32 = (hs, b2)" by (cases "read b1 32")
  obtain ns b3 where r3: "read b2 (2 * (nl - 1)) = (ns, b3)" by (cases "read b2 (2 * (nl - 1))")
  from assms r1 nl r2 r3 obtain nm where nm: "decode_UTF_16 ns = Inr nm"
    by (auto simp: FileRecord_read_def split: sum.splits)
  from assms r1 nl r2 r3 nm have
    r: "r = FileRecord len off nl (int_from_bytes_big hs) nm (tell (seek_cur b3 2)) (len - 44 - nl * 2)"
    by (simp add: FileRecord_read_def Let_def)
  have a: "is_FileRecord r \<and> rec_length r = len \<and>
         struct_unpack_i (fst (read b 4)) = Inr (name_length r) \<and>
         data_length r = rec_length r - 44 - 2 * name_length r \<and>
         data_start r =
           tell (seek_cur (snd (read (snd (read (snd (read b 4)) 32))
                                  (2 * (name_length r - 1)))) 2)"
    using r3 by (simp add: r r1 r2 nl algebra_simps)
  have "data_start r = int (pos b) + 36 + 2 * name_length r"
    if "1 \<le> name_length r" "int (pos b) + 36 + 2 * name_length r \<le> int (length (buf b))"
  proof -
    from that have nl1: "1 \<le> nl" and le: "int (pos b) + 36 + 2 * nl \<le> int (length (buf b))"
      by (simp_all add: r)
    from r1 le nl1 have b1: "b1 = b\<lparr>pos := pos b + 4\<rparr>"
      by (auto simp: read_def Let_def)
    from r2 le nl1 b1 have b2: "b2 = b\<lparr>pos := pos b + 36\<rparr>"
      by (auto simp: read_def Let_def)
    from r3 le nl1 b2 have b3: "b3 = b\<lparr>pos := pos b + 36 + nat (2 * (nl - 1))\<rparr>"
      by (auto simp: read_def Let_def)
    from nl1 show ?thesis
      by (simp add: r b3 tell_def seek_cur_def)
  qed
  with a show ?thesis by blast
qed

theorem FileRecord_read_data_length_witness:
  "FileRecord_read 100 0 \<lparr>buf = example_file_bytes, pos = 8\<rparr> =
     Inr (FileRecord 100 0 6 0 (str_of ''hello'') 56 44, \<lparr>buf = example_file_bytes, pos = 100\<rparr>) \<and>
   data_length (FileRecord 100 0 6 0 (str_of ''hello'') 56 44) = 100 - 44 - 2 * 6 \<and>
   (1::int) \<le> 6 \<and> int 8 + 36 + 2 * 6 \<le> int (length example_file_bytes)"
proof -
  have e: "FileRecord_read 100 0 \<lparr>buf = example_file_bytes, pos = 8\<rparr> =
     Inr (FileRecord 100 0 6 0 (str_of ''hello'') 56 44, \<lparr>buf = example_file_bytes, pos = 100\<rparr>)"
    by (simp add: FileRecord_read_def read_def struct_unpack_i_def example_file_bytes_def
          decode_UTF_16_def utf16_decode_def int_from_bytes_big_def seek_cur_def tell_def
          str_of_def Let_def le_uint_replicate_zero)
  from FileRecord_read_data_length[OF e] e show ?thesis
    by (simp add: example_file_bytes_def)
qed

subsection \<open>The scan\<close>

lemma le_uint_nonneg: "0 \<le> le_uint bs"
  by (induction bs) simp_all

lemma read_at:
  "0 \<le> n \<Longrightarrow> p + nat n \<le> length bs \<Longrightarrow>
   read \<lparr>buf = bs, pos = p\<rparr> n = (take (nat n) (drop p bs), \<lparr>buf = bs, pos = p + nat n\<rparr>)"
  by (simp add: read_def Let_def)

lemma seek_cur_at:
  "0 \<le> n \<Longrightarrow> seek_cur \<lparr>buf = bs, pos = p\<rparr> n = \<lparr>buf = bs, pos = p + nat n\<rparr>"
  by (simp add: seek_cur_def nat_add_distrib)

lemma unpack_i_at:
  "p + 4 \<le> length bs \<Longrightarrow> le_uint (take 4 (drop p bs)) < 2 ^ 31 \<Longrightarrow>
   struct_unpack_i (take 4 (drop p bs)) = Inr (le_uint (take 4 (drop p bs)))"
  by (simp add: struct_unpack_i_def)

lemma read_offsets_ok:
  "p + 8 * k \<le> length bs \<Longrightarrow>
   \<exists>offs'. GGPKRecord_read_offsets k \<lparr>buf = bs, pos = p\<rparr> offs =
     Inr (offs', \<lparr>buf = bs, pos = p + 8 * k\<rparr>)"
proof (induction k arbitrary: p offs)
  case 0
  then show ?case by simp
next
  case (Suc k)
  then have r: "read \<lparr>buf = bs, pos = p\<rparr> 8 = (take 8 (drop p bs), \<lparr>buf = bs, pos = p + 8\<rparr>)"
    using read_at[of 8 p bs] by simp
  from Suc.prems obtain v where v: "struct_unpack_q (take 8 (drop p bs)) = Inr v"
    by (simp add: struct_unpack_q_def)
  from Suc.prems have "p + 8 + 8 * k \<le> length bs" by simp
  from Suc.IH[OF this, of "offs @ [v]"] show ?case
    by (simp add: r v add.assoc)
qed

lemma read_entries_ok:
  "p + 12 * k \<le> length bs \<Longrightarrow>
   \<exists>es'. DirectoryRecord_read_entries k \<lparr>buf = bs, pos = p\<rparr> es =
     Inr (es', \<lparr>buf = bs, pos = p + 12 * k\<rparr>)"
proof (induction k arbitrary: p es)
  case 0
  then show ?case by simp
next
  case (Suc k)
  then have r1: "read \<lparr>buf = bs, pos = p\<rparr> 4 = (take 4 (drop p bs), \<lparr>buf = bs, pos = p + 4\<rparr>)"
    using read_at[of 4 p bs] by simp
  from Suc.prems have r2: "read \<lparr>buf = bs, pos = p + 4\<rparr> 8 =
      (take 8 (drop (p + 4) bs), \<lparr>buf = bs, pos = p + 12\<rparr>)"
    using read_at[of 8 "p + 4" bs] by simp
  from Suc.prems obtain h where h: "struct_unpack_I (take 4 (drop p bs)) = Inr h"
    by (simp add: struct_unpack_I_def)
  from Suc.prems obtain v where v: "struct_unpack_q (take 8 (drop (p + 4) bs)) = Inr v"
    by (simp add: struct_unpack_q_def)
  from Suc.prems have "p + 12 + 12 * k \<le> length bs" by simp
  from Suc.IH[OF this, of "es @ [DirectoryRecordEntry h v]"] show ?case
    by (simp add: r1 r2 h v add.assoc)
qed


lemma FreeRecord_read_ok:
  assumes "off + len \<le> length bs" "16 \<le> len"
  shows "\<exists>r. FreeRecord_read (int len) (int off) \<lparr>buf = bs, pos = off + 8\<rparr> =
           Inr (r, \<lparr>buf = bs, pos = off + len\<rparr>) \<and>
         rec_length r = int len \<and> rec_offset r = int off"
proof -
  from assms have r: "read \<lparr>buf = bs, pos = off + 8\<rparr> 8 =
      (take 8 (drop (off + 8) bs), \<lparr>buf = bs, pos = off + 16\<rparr>)"
    using read_at[of 8 "off + 8" bs] by simp
  from assms obtain v where v: "struct_unpack_q (take 8 (drop (off + 8) bs)) = Inr v"
    by (simp add: struct_unpack_q_def)
  from assms have "nat (max 0 (int (off + 16) + (int len - 16))) = off + len"
    by simp
  then show ?thesis
    by (simp add: FreeRecord_read_def r v seek_cur_def)
qed

lemma GGPKRecord_read_ok:
  assumes "off + len \<le> length bs" "12 \<le> len" "len < 2 ^ 31"
      and "int len = 12 + 8 * le_uint (take 4 (drop (off + 8) bs))"
  shows "\<exists>r. GGPKRecord_read (int len) (int off) \<lparr>buf = bs, pos = off + 8\<rparr> =
           Inr (r, \<lparr>buf = bs, pos = off + len\<rparr>) \<and>
         rec_length r = int len \<and> rec_offset r = int off"
proof -
  let ?f1 = "le_uint (take 4 (drop (off + 8) bs))"
  from assms have r: "read \<lparr>buf = bs, pos = off + 8\<rparr> 4 =
      (take 4 (drop (off + 8) bs), \<lparr>buf = bs, pos = off + 12\<rparr>)"
    using read_at[of 4 "off + 8" bs] by simp
  have f0: "0 \<le> ?f1" by (rule le_uint_nonneg)
  from assms have L: "int len < 2147483648" by simp
  with assms have "?f1 < 2 ^ 31" by simp
  with assms have u: "struct_unpack_i (take 4 (drop (off + 8) bs)) = Inr ?f1"
    by (simp add: unpack_i_at)
  from assms f0 have k: "off + 12 + 8 * nat ?f1 \<le> length bs" and e: "off + 12 + 8 * nat ?f1 = off + len"
    by linarith+
  from read_offsets_ok[OF k, of "[]"] e show ?thesis
    by (auto simp: GGPKRecord_read_def r u)
qed

lemma FileRecord_read_ok:
  assumes "off + len \<le> length bs" "len < 2 ^ 31"
      and "1 \<le> le_uint (take 4 (drop (off + 8) bs))"
      and "44 + 2 * le_uint (take 4 (drop (off + 8) bs)) \<le> int len"
      and "field_ok (decode_UTF_16
             (take (nat (2 * (le_uint (take 4 (drop (off + 8) bs)) - 1))) (drop (off + 44) bs)))"
  shows "\<exists>r. FileRecord_read (int len) (int off) \<lparr>buf = bs, pos = off + 8\<rparr> =
           Inr (r, \<lparr>buf = bs, pos = off + len\<rparr>) \<and>
         rec_length r = int len \<and> rec_offset r = int off"
proof -
  let ?f1 = "le_uint (take 4 (drop (off + 8) bs))"
  from assms have r1: "read \<lparr>buf = bs, pos = off + 8\<rparr> 4 =
      (take 4 (drop (off + 8) bs), \<lparr>buf = bs, pos = off + 12\<rparr>)"
    using read_at[of 4 "off + 8" bs] by simp
  from assms have L: "int len < 2147483648" by simp
  with assms have "?f1 < 2 ^ 31" by simp
  with assms have u: "struct_unpack_i (take 4 (drop (off + 8) bs)) = Inr ?f1"
    by (simp add: unpack_i_at)
  from assms have r2: "read \<lparr>buf = bs, pos = off + 12\<rparr> 32 =
      (take 32 (drop (off + 12) bs), \<lparr>buf = bs, pos = off + 44\<rparr>)"
    using read_at[of 32 "off + 12" bs] by simp
  from assms have r3: "read \<lparr>buf = bs, pos = off + 44\<rparr> (2 * (?f1 - 1)) =
      (take (nat (2 * (?f1 - 1))) (drop (off + 44) bs),
       \<lparr>buf = bs, pos = off + 44 + nat (2 * (?f1 - 1))\<rparr>)"
    using read_at[of "2 * (?f1 - 1)" "off + 44" bs] by simp
  from assms(5) obtain nm where nm:
    "decode_UTF_16 (take (nat (2 * (?f1 - 1))) (drop (off + 44) bs)) = Inr nm"
    by (auto simp: field_ok_def split: sum.splits)
  from assms have p: "nat (max 0 (int (nat (max 0 (int (off + 44 + nat (2 * (?f1 - 1))) + 2))) +
      (int len - 44 - ?f1 * 2))) = off + len"
    by simp
  show ?thesis
    using p r3 nm by (simp add: FileRecord_read_def r1 u r2 seek_cur_def tell_def Let_def)
qed

lemma DirectoryRecord_read_ok:
  assumes "off + len \<le> length bs" "len < 2 ^ 31"
      and "1 \<le> le_uint (take 4 (drop (off + 8) bs))"
      and "int len = 48 + 2 * le_uint (take 4 (drop (off + 8) bs)) +
             12 * le_uint (take 4 (drop (off + 12) bs))"
      and "field_ok (decode_UTF_16_LE
             (take (nat (2 * (le_uint (take 4 (drop (off + 8) bs)) - 1))) (drop (off + 48) bs)))"
  shows "\<exists>r. DirectoryRecord_read (int len) (int off) \<lparr>buf = bs, pos = off + 8\<rparr> =
           Inr (r, \<lparr>buf = bs, pos = off + len\<rparr>) \<and>
         rec_length r = int len \<and> rec_offset r = int off"
proof -
  let ?f1 = "le_uint (take 4 (drop (off + 8) bs))"
  let ?f2 = "le_uint (take 4 (drop (off + 12) bs))"
  have f2: "0 \<le> ?f2" by (rule le_uint_nonneg)
  from assms f2 have r1: "read \<lparr>buf = bs, pos = off + 8\<rparr> 4 =
      (take 4 (drop (off + 8) bs), \<lparr>buf = bs, pos = off + 12\<rparr>)"
    using read_at[of 4 "off + 8" bs] by simp
  from assms have L: "int len < 2147483648" by simp
  with assms f2 have "?f1 < 2 ^ 31" by simp
  with assms f2 have u1: "struct_unpack_i (take 4 (drop (off + 8) bs)) = Inr ?f1"
    by (simp add: unpack_i_at)
  from assms f2 have r2: "read \<lparr>buf = bs, pos = off + 12\<rparr> 4 =
      (take 4 (drop (off + 12) bs), \<lparr>buf = bs, pos = off + 16\<rparr>)"
    using read_at[of 4 "off + 12" bs] by simp
  from assms f2 L have "?f2 < 2 ^ 31" by simp
  with assms f2 have u2: "struct_unpack_i (take 4 (drop (off + 12) bs)) = Inr ?f2"
    by (simp add: unpack_i_at)
  from assms f2 have r3: "read \<lparr>buf = bs, pos = off + 16\<rparr> 32 =
      (take 32 (drop (off + 16) bs), \<lparr>buf = bs, pos = off + 48\<rparr>)"
    using read_at[of 32 "off + 16" bs] by simp
  from assms f2 have r4: "read \<lparr>buf = bs, pos = off + 48\<rparr> (2 * (?f1 - 1)) =
      (take (nat (2 * (?f1 - 1))) (drop (off + 48) bs),
       \<lparr>buf = bs, pos = off + 48 + nat (2 * (?f1 - 1))\<rparr>)"
    using read_at[of "2 * (?f1 - 1)" "off + 48" bs] by simp
  from assms(5) obtain nm where nm:
    "decode_UTF_16_LE (take (nat (2 * (?f1 - 1))) (drop (off + 48) bs)) = Inr nm"
    by (auto simp: field_ok_def split: sum.splits)
  let ?p = "off + 48 + nat (2 * (?f1 - 1)) + 2"
  from assms(3) obtain m1 where m1: "?f1 = int m1" "1 \<le> m1"
    by (metis nat_0_le nat_one_as_int nat_le_eq_zle of_nat_1 order_trans zero_le_one)
  from f2 obtain m2 where m2: "?f2 = int m2"
    by (metis nat_0_le)
  from m1 have n: "nat (2 * (?f1 - 1)) = 2 * m1 - 2"
    by simp
  from assms(4) m1 m2 have "len = 48 + 2 * m1 + 12 * m2"
    by linarith
  with m1 m2 n have e: "?p + 12 * nat ?f2 = off + len"
    by simp
  with assms(1) have k: "?p + 12 * nat ?f2 \<le> length bs"
    by simp
  have sk: "seek_cur \<lparr>buf = bs, pos = off + 48 + nat (2 * (?f1 - 1))\<rparr> 2 = \<lparr>buf = bs, pos = ?p\<rparr>"
    using seek_cur_at[of 2 bs "off + 48 + nat (2 * (?f1 - 1))"] by simp
  from read_entries_ok[OF k, of "[]"] e r4 nm sk show ?thesis
    by (auto simp: DirectoryRecord_read_def r1 u1 r2 u2 r3)
qed


lemma known_tags_distinct:
  "ascii_bytes ''FREE'' \<noteq> ascii_bytes ''FILE''"
  "ascii_bytes ''PDIR'' \<noteq> ascii_bytes ''FILE''"
  "ascii_bytes ''PDIR'' \<noteq> ascii_bytes ''FREE''"
  "ascii_bytes ''GGPK'' \<noteq> ascii_bytes ''FILE''"
  "ascii_bytes ''GGPK'' \<noteq> ascii_bytes ''FREE''"
  "ascii_bytes ''GGPK'' \<noteq> ascii_bytes ''PDIR''"
  by (simp_all add: ascii_bytes_def)

lemma read_record_ok:
  assumes "well_formed_record bs off len"
  shows "\<exists>r. GGPKFile_read_record records \<lparr>buf = bs, pos = off\<rparr> (int off) =
           Inr (records(int off \<mapsto> r), \<lparr>buf = bs, pos = off + len\<rparr>) \<and>
         rec_length r = int len \<and> rec_offset r = int off"
proof -
  let ?ts = "take 4 (drop (off + 4) bs)"
  from assms have b: "off + len \<le> length bs" "12 \<le> len" "len < 2 ^ 31"
    and l: "le_uint (take 4 (drop off bs)) = int len"
    by (simp_all add: well_formed_record_def)
  from b have r1: "read \<lparr>buf = bs, pos = off\<rparr> 4 = (take 4 (drop off bs), \<lparr>buf = bs, pos = off + 4\<rparr>)"
    using read_at[of 4 off bs] by simp
  from b l have u: "struct_unpack_i (take 4 (drop off bs)) = Inr (int len)"
    using unpack_i_at[of off bs] by simp
  from b have r2: "read \<lparr>buf = bs, pos = off + 4\<rparr> 4 = (?ts, \<lparr>buf = bs, pos = off + 8\<rparr>)"
    using read_at[of 4 "off + 4" bs] by simp
  from assms have k: "?ts \<in> set known_tags"
    by (auto simp: well_formed_record_def known_tags_def Let_def split: if_splits)
  then have d: "decode_ascii ?ts = Inr (map unat ?ts)"
    by (simp add: decode_ascii_def known_tags_ascii)
  have "\<exists>r. (if ?ts = ascii_bytes ''FILE'' then FileRecord_read (int len) (int off) \<lparr>buf = bs, pos = off + 8\<rparr>
              else if ?ts = ascii_bytes ''FREE'' then FreeRecord_read (int len) (int off) \<lparr>buf = bs, pos = off + 8\<rparr>
              else if ?ts = ascii_bytes ''PDIR'' then DirectoryRecord_read (int len) (int off) \<lparr>buf = bs, pos = off + 8\<rparr>
              else if ?ts = ascii_bytes ''GGPK'' then GGPKRecord_read (int len) (int off) \<lparr>buf = bs, pos = off + 8\<rparr>
              else Inl ValueError) = Inr (r, \<lparr>buf = bs, pos = off + len\<rparr>) \<and>
         rec_length r = int len \<and> rec_offset r = int off"
  proof -
    consider (tfile) "?ts = ascii_bytes ''FILE''" | (tfree) "?ts = ascii_bytes ''FREE''"
      | (tpdir) "?ts = ascii_bytes ''PDIR''" | (tggpk) "?ts = ascii_bytes ''GGPK''"
      using k by (auto simp: known_tags_def)
    then show ?thesis
    proof cases
      case tfile
      with assms b FileRecord_read_ok[of off len bs] show ?thesis
        by (simp add: well_formed_record_def Let_def)
    next
      case tfree
      with assms b FreeRecord_read_ok[of off len bs] show ?thesis
        by (simp add: well_formed_record_def Let_def known_tags_distinct)
    next
      case tpdir
      with assms b DirectoryRecord_read_ok[of off len bs] show ?thesis
        by (simp add: well_formed_record_def Let_def known_tags_distinct)
    next
      case tggpk
      with assms b GGPKRecord_read_ok[of off len bs] show ?thesis
        by (simp add: well_formed_record_def Let_def known_tags_distinct)
    qed
  qed
  then show ?thesis
    by (simp add: GGPKFile_read_record_def r1 u r2 d str_of_ascii_bytes map_unat_eq)
       (use k in \<open>auto simp: known_tags_def known_tags_distinct\<close>)
qed

lemma well_formed_records_nth:
  "well_formed_records bs off lens \<Longrightarrow> i < length lens \<Longrightarrow>
   well_formed_record bs (offsets_from off lens ! i) (lens ! i)"
proof (induction lens arbitrary: off i)
  case Nil
  then show ?case by simp
next
  case (Cons len lens)
  then show ?case by (cases i) simp_all
qed

lemma read_loop_ok:
  assumes "well_formed_records bs off lens"
  shows "\<exists>records'. GGPKFile_read_loop records \<lparr>buf = bs, pos = off\<rparr> (int off) (int (length bs)) =
           Some (Inr records') \<and>
         dom records' = dom records \<union> int ` set (offsets_from off lens) \<and>
         (\<forall>k. k < int off \<longrightarrow> records' k = records k) \<and>
         (\<forall>i<length lens. \<exists>r. records' (int (offsets_from off lens ! i)) = Some r \<and>
            rec_length r = int (lens ! i) \<and> rec_offset r = int (offsets_from off lens ! i))"
  using assms
proof (induction lens arbitrary: off records)
  case Nil
  then show ?case
    by (simp add: GGPKFile_read_loop.simps)
next
  case (Cons len lens)
  then have wf: "well_formed_record bs off len" and rest: "well_formed_records bs (off + len) lens"
    by simp_all
  from wf have lt: "off < length bs" and pos: "0 < len"
    by (simp_all add: well_formed_record_def)
  from read_record_ok[OF wf, of records] obtain r where
    r: "GGPKFile_read_record records \<lparr>buf = bs, pos = off\<rparr> (int off) =
          Inr (records(int off \<mapsto> r), \<lparr>buf = bs, pos = off + len\<rparr>)"
    and rl: "rec_length r = int len" "rec_offset r = int off"
    by blast
  from Cons.IH[OF rest, of "records(int off \<mapsto> r)"] obtain records' where
    l: "GGPKFile_read_loop (records(int off \<mapsto> r)) \<lparr>buf = bs, pos = off + len\<rparr>
          (int (off + len)) (int (length bs)) = Some (Inr records')"
    and d: "dom records' = dom (records(int off \<mapsto> r)) \<union> int ` set (offsets_from (off + len) lens)"
    and f: "\<forall>k. k < int (off + len) \<longrightarrow> records' k = (records(int off \<mapsto> r)) k"
    and a: "\<forall>i<length lens. \<exists>r. records' (int (offsets_from (off + len) lens ! i)) = Some r \<and>
            rec_length r = int (lens ! i) \<and> rec_offset r = int (offsets_from (off + len) lens ! i)"
    by blast
  have 1: "GGPKFile_read_loop records \<lparr>buf = bs, pos = off\<rparr> (int off) (int (length bs)) =
      Some (Inr records')"
    using lt r l by (subst GGPKFile_read_loop.simps) (simp add: tell_def)
  have 2: "dom records' = dom records \<union> int ` set (offsets_from off (len # lens))"
    using d by auto
  have 3: "\<forall>k. k < int off \<longrightarrow> records' k = records k"
    using f by simp
  have 4: "\<exists>r. records' (int (offsets_from off (len # lens) ! i)) = Some r \<and>
            rec_length r = int ((len # lens) ! i) \<and>
            rec_offset r = int (offsets_from off (len # lens) ! i)"
    if "i < length (len # lens)" for i
  proof (cases i)
    case 0
    with f pos rl show ?thesis by simp
  next
    case (Suc j)
    with that a show ?thesis by simp
  qed
  from 1 2 3 4 show ?case by blast
qed

text \<open>
  C3. For every stream of well-formed back-to-back records of the lengths \<open>lens\<close>
  that starts at offset 0, the scan returns a table whose keys are the prefix sums of
  \<open>lens\<close>; the record stored at each of them has the declared length and that
  offset; and decoding a record at each of these offsets leaves the cursor exactly the
  declared length further.
\<close>

theorem read_offsets_are_prefix_sums:
  assumes "well_formed_records bs 0 lens"
  shows "\<exists>records. GGPKFile_read bs = Some (Inr records) \<and>
           dom records = int ` set (offsets_from 0 lens) \<and>
           (\<forall>i<length lens.
              (\<exists>r. records (int (offsets_from 0 lens ! i)) = Some r \<and>
                 rec_length r = int (lens ! i) \<and> rec_offset r = int (offsets_from 0 lens ! i)) \<and>
              (\<forall>recs. \<exists>recs'.
                 GGPKFile_read_record recs \<lparr>buf = bs, pos = offsets_from 0 lens ! i\<rparr>
                   (int (offsets_from 0 lens ! i)) =
                 Inr (recs', \<lparr>buf = bs, pos = offsets_from 0 lens ! i + lens ! i\<rparr>)))"
proof -
  from read_loop_ok[OF assms, of Map.empty] obtain records where
    1: "GGPKFile_read bs = Some (Inr records)"
    and 2: "dom records = int ` set (offsets_from 0 lens)"
    and 3: "\<forall>i<length lens. \<exists>r. records (int (offsets_from 0 lens ! i)) = Some r \<and>
            rec_length r = int (lens ! i) \<and> rec_offset r = int (offsets_from 0 lens ! i)"
    by (auto simp: GGPKFile_read_def)
  have 4: "\<exists>recs'. GGPKFile_read_record recs \<lparr>buf = bs, pos = offsets_from 0 lens ! i\<rparr>
                   (int (offsets_from 0 lens ! i)) =
                 Inr (recs', \<lparr>buf = bs, pos = offsets_from 0 lens ! i + lens ! i\<rparr>)"
    if "i < length lens" for i recs
    using read_record_ok[OF well_formed_records_nth[OF assms that], of recs] by blast
  from 1 2 3 4 show ?thesis by blast
qed

text \<open>Records of the lengths 40, 24 and 56: the keys are 0, 40 and 64.\<close>

lemma example_stream_wf: "well_formed_records example_stream 0 [40, 24, 56]"
  by (simp add: example_stream_def well_formed_record_def ascii_bytes_def field_ok_def
        decode_UTF_16_def utf16_decode_def)

theorem read_offsets_are_prefix_sums_witness:
  "well_formed_records example_stream 0 [40, 24, 56] \<and>
   (\<exists>records. GGPKFile_read example_stream = Some (Inr records) \<and> dom records = {0, 40, 64})"
  using read_offsets_are_prefix_sums[OF example_stream_wf] example_stream_wf
  by auto


subsection \<open>Reference cycles\<close>

text \<open>
  While every pending offset is a key and some pending offset is in a cyclic set, the
  loop has another turn to take, after which the same holds: it never ends.
\<close>

lemma build_loop_cycle:
  assumes nd: "no_dangling records" and cy: "cyclic records C"
      and l1: "\<forall>x\<in>set l. records (fst x) \<noteq> None"
      and l2: "\<exists>x\<in>set l. fst x \<in> C"
  shows "build_loop records l s = None"
proof (rule ccontr)
  assume "build_loop records l s \<noteq> None"
  then obtain y where y: "build_loop records l s = Some y" by auto
  have "\<not> (no_dangling records \<and> cyclic records C \<and>
            (\<forall>x\<in>set l. records (fst x) \<noteq> None) \<and> (\<exists>x\<in>set l. fst x \<in> C))"
  proof (rule build_loop.raw_induct
      [where P = "\<lambda>records l s y. \<not> (no_dangling records \<and> cyclic records C \<and>
            (\<forall>x\<in>set l. records (fst x) \<noteq> None) \<and> (\<exists>x\<in>set l. fst x \<in> C))", OF _ y],
      goal_cases)
    case (1 loop records l s y)
    show ?case
    proof
      assume a: "no_dangling records \<and> cyclic records C \<and>
            (\<forall>x\<in>set l. records (fst x) \<noteq> None) \<and> (\<exists>x\<in>set l. fst x \<in> C)"
      then have ne: "l \<noteq> []" by auto
      obtain off h p where lst: "last l = (off, h, p)" by (cases "last l") auto
      from ne have ll: "l = butlast l @ [(off, h, p)]"
        using lst by (metis append_butlast_last_id)
      from a ne lst obtain r where r: "records off = Some r"
        by (metis fst_conv last_in_set not_None_eq)
      let ?n = "if is_DirectoryRecord r then build_pending (entries r) (length s) else []"
      from 1(2) ne lst r have st: "loop records (butlast l @ ?n) (build_node s r h p) = Some y"
        by simp
      have i1: "\<forall>x\<in>set (butlast l @ ?n). records (fst x) \<noteq> None"
      proof
        fix x assume "x \<in> set (butlast l @ ?n)"
        then consider "x \<in> set (butlast l)" | "x \<in> set ?n" by auto
        then show "records (fst x) \<noteq> None"
        proof cases
          case 1
          with a show ?thesis by (meson in_set_butlastD)
        next
          case 2
          with a r show ?thesis
            by (auto simp: no_dangling_def build_pending_def split: if_splits)
        qed
      qed
      have i2: "\<exists>x\<in>set (butlast l @ ?n). fst x \<in> C"
      proof (cases "off \<in> C")
        case True
        with a r obtain e where "is_DirectoryRecord r" "e \<in> set (entries r)" "entry_offset e \<in> C"
          by (auto simp: cyclic_def)
        then have "(entry_offset e, entry_hash e, length s) \<in> set ?n"
          by (auto simp: build_pending_def)
        with \<open>entry_offset e \<in> C\<close> show ?thesis
          by (metis Un_iff fst_conv set_append)
      next
        case False
        from a obtain x where x: "x \<in> set l" "fst x \<in> C" by auto
        with False have "x \<noteq> (off, h, p)" by auto
        with x(1) ll have "x \<in> set (butlast l)"
          by (metis Un_iff empty_iff empty_set set_ConsD set_append)
        with x(2) show ?thesis by auto
      qed
      from 1(1)[OF st] a i1 i2 show False by blast
    qed
  qed
  with assms show False by blast
qed

lemma find_root_in_table:
  "build_find_root records offs cur = Inr (Some r) \<Longrightarrow>
   cur = Some r \<or> (\<exists>d. records d = Some r)"
  by (induction offs arbitrary: cur) (auto split: option.splits if_splits)

lemma build_root_in_table:
  "build_root records = Inr r \<Longrightarrow> is_DirectoryRecord r \<and> (\<exists>d. records d = Some r)"
  by (auto simp: build_root_def split: option.splits sum.splits if_splits
           dest: find_root_in_table)

text \<open>
  C1 (as amended). On a table without dangling entries, where the root directory has
  an entry in a cyclic set of offsets, \<open>directory_build\<close> never returns: there is
  no set of visited offsets and no error for a cycle; every visit of an offset builds
  a new node and appends the directory's entries to the work list again.
\<close>

theorem directory_build_cycle_never_returns:
  assumes "no_dangling records" and "cyclic records C"
      and "build_root records = Inr r"
      and "\<exists>e\<in>set (entries r). entry_offset e \<in> C"
  shows "GGPKFile_directory_build records [] None = None"
proof -
  from build_root_in_table[OF assms(3)] obtain d where
    r: "is_DirectoryRecord r" "records d = Some r" by blast
  then have ne: "records \<noteq> Map.empty" by auto
  let ?l = "build_pending (entries r) 0"
  let ?s = "[\<lparr>children = [], parent = None, node_record = r, hash = None\<rparr>]"
  from assms(1) r have "\<forall>x\<in>set ?l. records (fst x) \<noteq> None"
    by (auto simp: no_dangling_def build_pending_def)
  moreover from assms(4) have "\<exists>x\<in>set ?l. fst x \<in> C"
    by (auto simp: build_pending_def)
  ultimately have "build_loop records ?l ?s = None"
    using build_loop_cycle[OF assms(1,2)] by blast
  with ne r show ?thesis
    by (simp add: GGPKFile_directory_build_def assms(3) record_entries_def)
qed

lemma two_cycle_root:
  "build_root two_cycle_records = Inr (DirectoryRecord 62 20 1 1 0 [] [DirectoryRecordEntry 7 82])"
  by (simp add: build_root_def two_cycle_records_def record_offsets_def)

theorem directory_build_cycle_never_returns_witness:
  "no_dangling two_cycle_records \<and> cyclic two_cycle_records {82, 146} \<and>
   build_root two_cycle_records =
     Inr (DirectoryRecord 62 20 1 1 0 [] [DirectoryRecordEntry 7 82]) \<and>
   GGPKFile_directory_build two_cycle_records [] None = None"
proof -
  have 1: "no_dangling two_cycle_records"
    by (auto simp: no_dangling_def two_cycle_records_def split: if_splits)
  have 2: "cyclic two_cycle_records {82, 146}"
    by (simp add: cyclic_def two_cycle_records_def)
  from directory_build_cycle_never_returns[OF 1 2 two_cycle_root] 1 2 two_cycle_root
  show ?thesis by simp
qed

text \<open>
  The claim as stated fails on the table whose root directory lists itself: the build
  does not return, so it does not fail with an error either.
\<close>

theorem directory_build_self_cycle_counterexample:
  "GGPKFile_directory_build self_cycle_records [] None = None"
proof -
  have 1: "no_dangling self_cycle_records"
    by (auto simp: no_dangling_def self_cycle_records_def split: if_splits)
  have 2: "cyclic self_cycle_records {20}"
    by (simp add: cyclic_def self_cycle_records_def)
  have "build_loop self_cycle_records [(20, 7, 0)]
          [\<lparr>children = [], parent = None,
             node_record = DirectoryRecord 62 20 1 1 0 [] [DirectoryRecordEntry 7 20],
             hash = None\<rparr>] = None"
    by (rule build_loop_cycle[OF 1 2]) (simp_all add: self_cycle_records_def)
  then show ?thesis
    by (simp add: GGPKFile_directory_build_def build_root_def record_offsets_def
          record_entries_def build_pending_def self_cycle_records_def)
qed

subsection \<open>Search\<close>

lemma tree_store_iff:
  "tree_store s \<longleftrightarrow>
     (\<forall>i<length s. distinct (children (s ! i)) \<and>
        (\<forall>c\<in>set (children (s ! i)). i < c \<and> c < length s \<and> parent (s ! c) = Some i))"
  unfolding tree_store_def list_all_iff by (simp add: Ball_def)

lemma tree_storeD:
  assumes "tree_store s" "i < length s"
  shows "distinct (children (s ! i))"
    and "c \<in> set (children (s ! i)) \<Longrightarrow> i < c \<and> c < length s \<and> parent (s ! c) = Some i"
  using assms unfolding tree_store_iff by blast+

lemma subtree_ge: "n \<in> subtree s c \<Longrightarrow> tree_store s \<Longrightarrow> c < length s \<Longrightarrow> c \<le> n \<and> n < length s"
proof (induction rule: subtree.induct)
  case self
  then show ?case by simp
next
  case (child n c')
  then have n: "c \<le> n" "n < length s" by simp_all
  from tree_storeD(2)[OF child(4) n(2) child(2)] n show ?case by simp
qed


lemma subtree_unfold:
  "subtree s n = insert n (\<Union>c\<in>set (children (s ! n)). subtree s c)"
proof (intro set_eqI iffI)
  fix x assume "x \<in> subtree s n"
  then show "x \<in> insert n (\<Union>c\<in>set (children (s ! n)). subtree s c)"
  proof (induction rule: subtree.induct)
    case self
    then show ?case by simp
  next
    case (child m c)
    from child(3) consider "m = n" | c' where "c' \<in> set (children (s ! n))" "m \<in> subtree s c'"
      by auto
    then show ?case
    proof cases
      case 1
      with child(2) have "c \<in> set (children (s ! n))" by simp
      moreover have "c \<in> subtree s c" by (rule subtree.self)
      ultimately show ?thesis by blast
    next
      case 2
      from subtree.child[OF 2(2) child(2)] 2(1) show ?thesis by blast
    qed
  qed
next
  fix x assume "x \<in> insert n (\<Union>c\<in>set (children (s ! n)). subtree s c)"
  then consider "x = n" | c where "c \<in> set (children (s ! n))" "x \<in> subtree s c" by auto
  then show "x \<in> subtree s n"
  proof cases
    case 1
    then show ?thesis by (simp add: subtree.self)
  next
    case 2
    from 2(2) show ?thesis
    proof (induction rule: subtree.induct)
      case self
      from subtree.child[OF subtree.self 2(1)] show ?case .
    next
      case (child m c')
      from subtree.child[OF child(3) child(2)] show ?case .
    qed
  qed
qed

lemma subtree_parent:
  assumes "x \<in> subtree s c" "x \<noteq> c" "tree_store s" "c < length s"
  shows "\<exists>m. parent (s ! x) = Some m \<and> m \<in> subtree s c"
  using assms
proof (induction rule: subtree.induct)
  case self
  then show ?case by simp
next
  case (child n c')
  from subtree_ge[OF child(1) child(5,6)] have "n < length s" by simp
  from tree_storeD(2)[OF child(5) this child(2)] child(1) show ?case by blast
qed

lemma subtree_siblings_disjoint:
  assumes t: "tree_store s" and p: "p < length s"
      and c1: "c1 \<in> set (children (s ! p))" and c2: "c2 \<in> set (children (s ! p))"
      and ne: "c1 \<noteq> c2"
  shows "subtree s c1 \<inter> subtree s c2 = {}"
proof -
  from tree_storeD(2)[OF t p c1] have k1: "p < c1" "c1 < length s" "parent (s ! c1) = Some p"
    by auto
  from tree_storeD(2)[OF t p c2] have k2: "p < c2" "c2 < length s" "parent (s ! c2) = Some p"
    by auto
  have "x \<in> subtree s c1 \<Longrightarrow> x \<notin> subtree s c2" for x
  proof (induction rule: subtree.induct)
    case self
    show ?case
    proof
      assume "c1 \<in> subtree s c2"
      from subtree_parent[OF this ne t k2(2)] k1(3) have "p \<in> subtree s c2" by auto
      from subtree_ge[OF this t k2(2)] k2(1) show False by simp
    qed
  next
    case (child m x)
    from subtree_ge[OF child(1) t k1(2)] have m: "c1 \<le> m" "m < length s" by auto
    from tree_storeD(2)[OF t m(2) child(2)] have px: "parent (s ! x) = Some m" by simp
    show ?case
    proof
      assume a: "x \<in> subtree s c2"
      show False
      proof (cases "x = c2")
        case True
        with px k2(3) have "m = p" by simp
        with m(1) k1(1) show False by simp
      next
        case False
        from subtree_parent[OF a False t k2(2)] px have "m \<in> subtree s c2" by auto
        with child(3) show False by simp
      qed
    qed
  qed
  then show ?thesis by auto
qed


lemma search_matches_selects:
  "search_matches s regex sf sd n = Inr (search_selects s regex sf sd n)"
  by (auto simp: search_matches_def search_selects_def DirectoryNode_get_name_def record_name_def)

lemma search_loop_step:
  "search_loop s regex sf sd (q @ [n]) acc =
     search_loop s regex sf sd (q @ children (s ! n))
       (if search_selects s regex sf sd n then acc @ [n] else acc)"
  by (subst search_loop.simps) (simp add: search_matches_selects Let_def)

lemma search_loop_children:
  assumes "\<forall>c\<in>set cs. \<forall>q acc. \<exists>res.
             search_loop s regex sf sd (q @ [c]) acc = search_loop s regex sf sd q (acc @ res) \<and>
             distinct res \<and> set res = {x \<in> subtree s c. search_selects s regex sf sd x}"
      and "distinct cs"
      and "\<forall>c1\<in>set cs. \<forall>c2\<in>set cs. c1 \<noteq> c2 \<longrightarrow> subtree s c1 \<inter> subtree s c2 = {}"
  shows "\<exists>res. search_loop s regex sf sd (q @ cs) acc = search_loop s regex sf sd q (acc @ res) \<and>
           distinct res \<and>
           set res = {x \<in> (\<Union>c\<in>set cs. subtree s c). search_selects s regex sf sd x}"
  using assms
proof (induction cs arbitrary: acc rule: rev_induct)
  case Nil
  show ?case by (rule exI[of _ "[]"]) simp
next
  case (snoc c cs)
  from snoc.prems(1) obtain r1 where
    r1: "search_loop s regex sf sd ((q @ cs) @ [c]) acc = search_loop s regex sf sd (q @ cs) (acc @ r1)"
      "distinct r1" "set r1 = {x \<in> subtree s c. search_selects s regex sf sd x}"
    by (metis in_set_conv_decomp)
  have "\<exists>res. search_loop s regex sf sd (q @ cs) (acc @ r1) =
           search_loop s regex sf sd q ((acc @ r1) @ res) \<and> distinct res \<and>
           set res = {x \<in> (\<Union>c\<in>set cs. subtree s c). search_selects s regex sf sd x}"
    using snoc.prems by (intro snoc.IH) auto
  then obtain r2 where
    r2: "search_loop s regex sf sd (q @ cs) (acc @ r1) = search_loop s regex sf sd q ((acc @ r1) @ r2)"
      "distinct r2" "set r2 = {x \<in> (\<Union>c\<in>set cs. subtree s c). search_selects s regex sf sd x}"
    by blast
  have dj: "subtree s c \<inter> (\<Union>c\<in>set cs. subtree s c) = {}"
  proof -
    have "subtree s c \<inter> subtree s c' = {}" if "c' \<in> set cs" for c'
    proof -
      from that snoc.prems(2) have "c \<noteq> c'" by auto
      with that snoc.prems(3) show ?thesis by simp
    qed
    then show ?thesis by blast
  qed
  show ?case
  proof (intro exI[of _ "r1 @ r2"] conjI)
    from r1(1) r2(1) show "search_loop s regex sf sd (q @ cs @ [c]) acc =
        search_loop s regex sf sd q (acc @ r1 @ r2)"
      by simp
    from r1(2,3) r2(2,3) dj show "distinct (r1 @ r2)"
      by auto
    from r1(3) r2(3) show "set (r1 @ r2) =
        {x \<in> (\<Union>c\<in>set (cs @ [c]). subtree s c). search_selects s regex sf sd x}"
      by auto
  qed
qed

lemma search_loop_node:
  assumes "tree_store s" "n < length s"
  shows "\<exists>res. search_loop s regex sf sd (q @ [n]) acc = search_loop s regex sf sd q (acc @ res) \<and>
           distinct res \<and> set res = {x \<in> subtree s n. search_selects s regex sf sd x}"
  using assms(2)
proof (induction "length s - n" arbitrary: n q acc rule: less_induct)
  case less
  let ?cs = "children (s ! n)"
  let ?a = "if search_selects s regex sf sd n then [n] else []"
  have kids: "c \<in> set ?cs \<Longrightarrow> n < c \<and> c < length s" for c
    using tree_storeD(2)[OF assms(1) less.prems] by blast
  have 1: "\<forall>c\<in>set ?cs. \<forall>q acc. \<exists>res.
             search_loop s regex sf sd (q @ [c]) acc = search_loop s regex sf sd q (acc @ res) \<and>
             distinct res \<and> set res = {x \<in> subtree s c. search_selects s regex sf sd x}"
  proof (intro ballI allI)
    fix c q acc assume c: "c \<in> set ?cs"
    from kids[OF c] have "length s - c < length s - n" "c < length s" by arith+
    then show "\<exists>res. search_loop s regex sf sd (q @ [c]) acc =
        search_loop s regex sf sd q (acc @ res) \<and>
        distinct res \<and> set res = {x \<in> subtree s c. search_selects s regex sf sd x}"
      by (rule less.hyps)
  qed
  have 2: "distinct ?cs"
    using tree_storeD(1)[OF assms(1) less.prems] .
  have 3: "\<forall>c1\<in>set ?cs. \<forall>c2\<in>set ?cs. c1 \<noteq> c2 \<longrightarrow> subtree s c1 \<inter> subtree s c2 = {}"
    using subtree_siblings_disjoint[OF assms(1) less.prems] by blast
  from search_loop_children[OF 1 2 3, of q "acc @ ?a"] obtain r where
    r: "search_loop s regex sf sd (q @ ?cs) (acc @ ?a) = search_loop s regex sf sd q ((acc @ ?a) @ r)"
      "distinct r" "set r = {x \<in> (\<Union>c\<in>set ?cs. subtree s c). search_selects s regex sf sd x}"
    by blast
  have nn: "n \<notin> (\<Union>c\<in>set ?cs. subtree s c)"
  proof
    assume "n \<in> (\<Union>c\<in>set ?cs. subtree s c)"
    then obtain c where c: "c \<in> set ?cs" "n \<in> subtree s c" by blast
    from kids[OF c(1)] subtree_ge[OF c(2) assms(1)] show False by simp
  qed
  show ?case
  proof (intro exI[of _ "?a @ r"] conjI)
    have "search_loop s regex sf sd (q @ [n]) acc = search_loop s regex sf sd (q @ ?cs) (acc @ ?a)"
      by (simp add: search_loop_step)
    with r(1) show "search_loop s regex sf sd (q @ [n]) acc =
        search_loop s regex sf sd q (acc @ ?a @ r)"
      by simp
    from r(2,3) nn show "distinct (?a @ r)"
      by auto
    from r(3) show "set (?a @ r) = {x \<in> subtree s n. search_selects s regex sf sd x}"
      by (subst subtree_unfold[of s n]) auto
  qed
qed

text \<open>
  C8. In every store that holds a tree, for every node, pattern and pair of flags,
  \<open>search\<close> returns a list without duplicates whose elements are exactly the nodes of
  the subtree whose record class the flags enable and whose display name the pattern
  matches.
\<close>

theorem search_exhaustive_duplicate_free:
  assumes "tree_store s" "self < length s"
  shows "\<exists>nodes. DirectoryNode_search s self regex search_files search_directories =
             Some (Inr nodes) \<and>
           distinct nodes \<and>
           set nodes = {n \<in> subtree s self. search_selects s regex search_files search_directories n}"
proof -
  from search_loop_node[OF assms, of regex search_files search_directories "[]" "[]"]
  obtain res where
    "search_loop s regex search_files search_directories [self] [] =
       search_loop s regex search_files search_directories [] res"
    "distinct res"
    "set res = {x \<in> subtree s self. search_selects s regex search_files search_directories x}"
    by auto
  then show ?thesis
    by (auto simp: DirectoryNode_search_def search_loop.simps[of _ _ _ _ "[]"])
qed


text \<open>
  Searching \<open>^Abstract\<close> among the files only, from the root of the tree built
  from the example archive: the two files (the nodes 3 and 2), not the directory.
\<close>

lemma search_store_build:
  "GGPKFile_directory_build search_records [] None = Some (Inr (search_store, 0))"
  apply (simp add: GGPKFile_directory_build_def build_root_def record_offsets_def
        record_entries_def build_pending_def search_records_def)
  apply (simp add: build_loop.simps build_node_def build_pending_def search_store_def)
  done

lemma search_store_tree: "tree_store search_store"
  by (simp add: tree_store_def search_store_def upt_rec)

lemma search_store_search:
  "DirectoryNode_search search_store 0 (re_search_prefix (str_of ''Abstract'')) True False =
     Some (Inr [3, 2])"
  by (simp add: DirectoryNode_search_def search_loop.simps search_matches_def
        DirectoryNode_get_name_def record_name_def re_search_prefix_def str_of_def
        search_store_def)

theorem search_exhaustive_duplicate_free_witness:
  "GGPKFile_directory_build search_records [] None = Some (Inr (search_store, 0)) \<and>
   tree_store search_store \<and> 0 < length search_store \<and>
   DirectoryNode_search search_store 0 (re_search_prefix (str_of ''Abstract'')) True False =
     Some (Inr [3, 2]) \<and>
   {n \<in> subtree search_store 0.
      search_selects search_store (re_search_prefix (str_of ''Abstract'')) True False n} = {2, 3}"
proof -
  have l: "0 < length search_store"
    by (simp add: search_store_def)
  from search_exhaustive_duplicate_free[OF search_store_tree l,
      of "re_search_prefix (str_of ''Abstract'')" True False]
  obtain nodes where
    n: "DirectoryNode_search search_store 0 (re_search_prefix (str_of ''Abstract'')) True False =
          Some (Inr nodes)"
       "set nodes = {n \<in> subtree search_store 0.
          search_selects search_store (re_search_prefix (str_of ''Abstract'')) True False n}"
    by blast
  from n(1) have "nodes = [3, 2]"
    by (simp add: search_store_search)
  with n(2) have "{n \<in> subtree search_store 0.
      search_selects search_store (re_search_prefix (str_of ''Abstract'')) True False n} = {2, 3}"
    by (simp add: insert_commute)
  with search_store_build search_store_tree l search_store_search show ?thesis
    by blast
qed

subsection \<open>The tree that the build returns\<close>

lemma rooted_store_iff:
  "rooted_store s \<longleftrightarrow>
     s \<noteq> [] \<and> tree_store s \<and>
     (\<forall>i<length s. case parent (s ! i) of
                   None \<Rightarrow> i = 0
                 | Some p \<Rightarrow> p < i \<and> i \<in> set (children (s ! p)))"
  unfolding rooted_store_def list_all_iff by (simp add: Ball_def)

lemma rooted_storeD:
  assumes "rooted_store s" "i < length s"
  shows "parent (s ! i) = None \<Longrightarrow> i = 0"
    and "parent (s ! i) = Some p \<Longrightarrow> p < i \<and> i \<in> set (children (s ! p))"
proof -
  from assms have c: "case parent (s ! i) of None \<Rightarrow> i = 0
      | Some p \<Rightarrow> p < i \<and> i \<in> set (children (s ! p))"
    unfolding rooted_store_iff by blast
  show "parent (s ! i) = None \<Longrightarrow> i = 0"
    using c by simp
  show "parent (s ! i) = Some p \<Longrightarrow> p < i \<and> i \<in> set (children (s ! p))"
    using c by simp
qed

lemma build_node_parent:
  "p < length s \<Longrightarrow> i \<le> length s \<Longrightarrow>
   parent (build_node s r h p ! i) = (if i = length s then Some p else parent (s ! i))"
  by (cases "i = p") (auto simp: build_node_def Let_def nth_append)

lemma build_node_children:
  "p < length s \<Longrightarrow> i \<le> length s \<Longrightarrow>
   children (build_node s r h p ! i) =
     (if i = length s then [] else if i = p then children (s ! p) @ [length s]
      else children (s ! i))"
  by (cases "i = p") (auto simp: build_node_def Let_def nth_append)

lemma build_node_tree:
  assumes t: "tree_store s" and p: "p < length s"
  shows "tree_store (build_node s r h p)"
  unfolding tree_store_iff
proof (intro allI impI conjI ballI)
  fix i assume "i < length (build_node s r h p)"
  then have i: "i \<le> length s" by (simp add: build_node_length)
  show "distinct (children (build_node s r h p ! i))"
  proof (cases "i = length s")
    case True
    with p show ?thesis by (simp add: build_node_children)
  next
    case False
    with i have il: "i < length s" by simp
    from tree_storeD[OF t il] have "distinct (children (s ! i))"
      "\<forall>c\<in>set (children (s ! i)). c < length s" by auto
    with p i False show ?thesis by (auto simp: build_node_children)
  qed
  fix c assume c: "c \<in> set (children (build_node s r h p ! i))"
  have "i < c \<and> c < length (build_node s r h p) \<and> parent (build_node s r h p ! c) = Some i"
  proof (cases "i = length s")
    case True
    with p c show ?thesis by (simp add: build_node_children)
  next
    case False
    with i have il: "i < length s" by simp
    show ?thesis
    proof (cases "c = length s")
      case True
      with c p i False il have "i = p"
        using tree_storeD(2)[OF t il, of c]
        by (auto simp: build_node_children split: if_splits)
      with True p show ?thesis
        by (simp add: build_node_length build_node_parent)
    next
      case cn: False
      with c p i False have "c \<in> set (children (s ! i))"
        by (auto simp: build_node_children split: if_splits)
      from tree_storeD(2)[OF t il this] p show ?thesis
        by (simp add: build_node_length build_node_parent)
    qed
  qed
  then show "i < c" "c < length (build_node s r h p)" "parent (build_node s r h p ! c) = Some i"
    by simp_all
qed

lemma build_node_rooted:
  assumes a: "rooted_store s" and p: "p < length s"
  shows "rooted_store (build_node s r h p)"
  unfolding rooted_store_iff
proof (intro conjI allI impI)
  show "build_node s r h p \<noteq> []"
    using build_node_length[of s r h p] by auto
  from a have t: "tree_store s" by (simp add: rooted_store_iff)
  then show "tree_store (build_node s r h p)"
    using p by (rule build_node_tree)
  fix i assume "i < length (build_node s r h p)"
  then have i: "i \<le> length s" by (simp add: build_node_length)
  show "case parent (build_node s r h p ! i) of None \<Rightarrow> i = 0
        | Some q \<Rightarrow> q < i \<and> i \<in> set (children (build_node s r h p ! q))"
  proof (cases "i = length s")
    case True
    with p show ?thesis
      by (simp add: build_node_parent build_node_children)
  next
    case False
    with i have il: "i < length s" by simp
    show ?thesis
    proof (cases "parent (s ! i)")
      case None
      with rooted_storeD(1)[OF a il] p i False show ?thesis
        by (simp add: build_node_parent)
    next
      case (Some q)
      from rooted_storeD(2)[OF a il Some] have q: "q < i" "i \<in> set (children (s ! q))"
        by auto
      with il have "q \<le> length s" "q \<noteq> length s" by auto
      with Some q p i False show ?thesis
        by (auto simp: build_node_parent build_node_children)
    qed
  qed
qed

lemma build_loop_rooted:
  assumes "build_loop records l s = Some y"
  shows "rooted_store s \<and> (\<forall>x\<in>set l. snd (snd x) < length s) \<longrightarrow>
         (\<forall>s'. y = Inr s' \<longrightarrow> rooted_store s')"
proof (rule build_loop.raw_induct
    [where P = "\<lambda>records l s y. rooted_store s \<and> (\<forall>x\<in>set l. snd (snd x) < length s) \<longrightarrow>
         (\<forall>s'. y = Inr s' \<longrightarrow> rooted_store s')", OF _ assms], goal_cases)
  case (1 loop records l s y)
  show ?case
  proof (intro impI)
    assume a: "rooted_store s \<and> (\<forall>x\<in>set l. snd (snd x) < length s)"
    show "\<forall>s'. y = Inr s' \<longrightarrow> rooted_store s'"
    proof (cases "l = []")
      case True
      with 1(2) a show ?thesis by auto
    next
      case False
      obtain off h p where lst: "last l = (off, h, p)"
        by (cases "last l") auto
      with a False have p: "p < length s"
        by (metis last_in_set snd_conv)
      show ?thesis
      proof (cases "records off")
        case None
        with 1(2) False lst show ?thesis by auto
      next
        case (Some r)
        let ?l = "butlast l @
          (if is_DirectoryRecord r then build_pending (entries r) (length s) else [])"
        from 1(2) False lst Some have st: "loop records ?l (build_node s r h p) = Some y"
          by simp
        from a p have r1: "rooted_store (build_node s r h p)"
          by (simp add: build_node_rooted)
        have r2: "\<forall>x\<in>set ?l. snd (snd x) < length (build_node s r h p)"
        proof
          fix x assume "x \<in> set ?l"
          then consider "x \<in> set (butlast l)" | "snd (snd x) = length s"
            by (auto simp: build_pending_def split: if_splits)
          then show "snd (snd x) < length (build_node s r h p)"
          proof cases
            case 1
            with a show ?thesis
              by (metis build_node_length in_set_butlastD less_Suc_eq)
          next
            case 2
            then show ?thesis by (simp add: build_node_length)
          qed
        qed
        from 1(1)[OF st] r1 r2 show ?thesis by blast
      qed
    qed
  qed
qed

lemma directory_build_rooted:
  assumes "GGPKFile_directory_build records [] None = Some (Inr (s, root))"
  shows "root = 0 \<and> rooted_store s"
proof -
  from assms obtain r es where
    l: "build_loop records (build_pending es 0)
          [\<lparr>children = [], parent = None, node_record = r, hash = None\<rparr>] = Some (Inr s)"
    and "root = 0"
    by (auto simp: GGPKFile_directory_build_def split: if_splits sum.splits option.splits)
  have "rooted_store [\<lparr>children = [], parent = None, node_record = r, hash = None\<rparr>]"
    by (simp add: rooted_store_def tree_store_def)
  moreover have "\<forall>x\<in>set (build_pending es 0).
      snd (snd x) < length [\<lparr>children = [], parent = None, node_record = r, hash = None\<rparr>]"
    by (simp add: build_pending_def)
  ultimately have "rooted_store s"
    using build_loop_rooted[OF l] by blast
  with \<open>root = 0\<close> show ?thesis by simp
qed

subsection \<open>Paths\<close>

lemma well_namedD:
  assumes "well_named s" "i < length s"
  shows "distinct (map (\<lambda>c. DirectoryNode_get_name (s ! c)) (children (s ! i)))"
    and "c \<in> set (children (s ! i)) \<Longrightarrow>
           \<exists>nm. DirectoryNode_get_name (s ! c) = Inr nm \<and> sep \<notin> set nm"
proof -
  from assms have a: "distinct (map (\<lambda>c. DirectoryNode_get_name (s ! c)) (children (s ! i))) \<and>
     (\<forall>c\<in>set (children (s ! i)). case DirectoryNode_get_name (s ! c) of
                                Inl e \<Rightarrow> False
                              | Inr nm \<Rightarrow> sep \<notin> set nm)"
    unfolding well_named_def list_all_iff by simp
  then show "distinct (map (\<lambda>c. DirectoryNode_get_name (s ! c)) (children (s ! i)))"
    by simp
  from a show "c \<in> set (children (s ! i)) \<Longrightarrow>
           \<exists>nm. DirectoryNode_get_name (s ! c) = Inr nm \<and> sep \<notin> set nm"
    by (cases "DirectoryNode_get_name (s ! c)") auto
qed

lemma get_name_nonempty: "DirectoryNode_get_name node = Inr nm \<Longrightarrow> nm \<noteq> []"
  by (auto simp: DirectoryNode_get_name_def str_of_def split: sum.splits if_splits)

lemma path_join_snoc: "ns \<noteq> [] \<Longrightarrow> path_join (ns @ [x]) = path_join ns @ sep # x"
  by (induction ns rule: path_join.induct) simp_all

lemma path_join_last:
  "ns \<noteq> [] \<Longrightarrow> \<forall>nm\<in>set ns. nm \<noteq> [] \<and> sep \<notin> set nm \<Longrightarrow>
   path_join ns \<noteq> [] \<and> last (path_join ns) \<noteq> sep"
proof (induction ns rule: path_join.induct)
  case 1
  then show ?case by simp
next
  case (2 x)
  then show ?case by (metis last_in_set list.set_intros(1) path_join.simps(2))
next
  case (3 x y ys)
  then show ?case by simp
qed

lemma takeWhile_upto_sep:
  "sep \<notin> set xs \<Longrightarrow> takeWhile (\<lambda>c. c \<noteq> sep) (xs @ sep # ys) = xs"
  by (induction xs) auto

lemma dropWhile_upto_sep:
  "sep \<notin> set xs \<Longrightarrow> dropWhile (\<lambda>c. c \<noteq> sep) (xs @ sep # ys) = sep # ys"
  by (induction xs) auto

lemma not_all_sep:
  assumes "h \<noteq> []" "last h \<noteq> sep"
  shows "h @ [sep] \<noteq> replicate (length (h @ [sep])) sep"
proof
  assume "h @ [sep] = replicate (length (h @ [sep])) sep"
  then have "h @ [sep] = replicate (length h) sep @ [sep]"
    by (simp add: replicate_append_same)
  then have "h = replicate (length h) sep"
    by simp
  then have "last h = last (replicate (length h) sep)"
    by simp
  with assms show False
    by simp
qed

lemma rstrip_sep:
  assumes "h \<noteq> []" "last h \<noteq> sep"
  shows "rev (dropWhile (\<lambda>c. c = sep) (rev (h @ [sep]))) = h"
proof -
  from assms obtain c cs where r: "rev h = c # cs" "c \<noteq> sep"
    by (cases "rev h") (auto simp: last_rev)
  have "rev (dropWhile (\<lambda>c. c = sep) (rev (h @ [sep]))) = rev (dropWhile (\<lambda>c. c = sep) (sep # c # cs))"
    by (simp add: r)
  also have "\<dots> = rev (c # cs)"
    using r(2) by simp
  also have "\<dots> = h"
    using r(1) by (metis rev_rev_ident)
  finally show ?thesis .
qed

lemma os_path_split_join:
  assumes "\<forall>nm\<in>set ns. nm \<noteq> [] \<and> sep \<notin> set nm" and "sep \<notin> set x"
  shows "os_path_split (path_join (ns @ [x])) = (path_join ns, x)"
proof (cases "ns = []")
  case True
  have tk: "takeWhile (\<lambda>c. c \<noteq> sep) (rev x) = rev x"
    and dk: "dropWhile (\<lambda>c. c \<noteq> sep) (rev x) = []"
    using assms(2) by (auto simp: takeWhile_eq_all_conv)
  show ?thesis
    by (simp add: os_path_split_def True tk dk)
next
  case False
  let ?h = "path_join ns"
  let ?p = "path_join (ns @ [x])"
  from path_join_last[OF False assms(1)] have h: "?h \<noteq> []" "last ?h \<noteq> sep"
    by simp_all
  have p: "rev ?p = rev x @ sep # rev ?h"
    using False by (simp add: path_join_snoc)
  have t: "rev (takeWhile (\<lambda>c. c \<noteq> sep) (rev ?p)) = x"
    unfolding p using assms(2) by (simp add: takeWhile_upto_sep)
  have d: "rev (dropWhile (\<lambda>c. c \<noteq> sep) (rev ?p)) = ?h @ [sep]"
    unfolding p using assms(2) by (simp add: dropWhile_upto_sep)
  have "os_path_split ?p =
      (if ?h @ [sep] \<noteq> [] \<and> ?h @ [sep] \<noteq> replicate (length (?h @ [sep])) sep
       then rev (dropWhile (\<lambda>c. c = sep) (rev (?h @ [sep]))) else ?h @ [sep], x)"
    unfolding os_path_split_def Let_def t d ..
  also have "\<dots> = (?h, x)"
    using not_all_sep[OF h] rstrip_sep[OF h] by simp
  finally show ?thesis .
qed

lemma getitem_split_join:
  "\<forall>nm\<in>set ns. nm \<noteq> [] \<and> sep \<notin> set nm \<Longrightarrow>
   getitem_split (path_join ns) path = Some (ns @ path)"
proof (induction ns arbitrary: path rule: rev_induct)
  case Nil
  then show ?case by (simp add: getitem_split.simps)
next
  case (snoc x ns)
  then have x: "x \<noteq> []" "sep \<notin> set x" and ns: "\<forall>nm\<in>set ns. nm \<noteq> [] \<and> sep \<notin> set nm"
    by auto
  have ne: "path_join (ns @ [x]) \<noteq> []"
    using path_join_last[of "ns @ [x]"] snoc.prems by simp
  have "getitem_split (path_join (ns @ [x])) path = getitem_split (path_join ns) (x # path)"
    using ne by (subst getitem_split.simps) (simp add: os_path_split_join[OF ns x(2)])
  with snoc.IH[OF ns, of "x # path"] show ?case by simp
qed

lemma getitem_walk_append:
  "getitem_walk s obj xs = Inr (Some obj') \<Longrightarrow>
   getitem_walk s obj (xs @ ys) = getitem_walk s obj' ys"
  by (induction xs arbitrary: obj) (auto split: sum.splits option.splits)

lemma getitem_child_found:
  assumes "distinct (map (\<lambda>c. DirectoryNode_get_name (s ! c)) cs)"
      and "\<forall>c\<in>set cs. \<exists>nm. DirectoryNode_get_name (s ! c) = Inr nm"
      and "node \<in> set cs" and "DirectoryNode_get_name (s ! node) = Inr nm"
  shows "getitem_child s cs nm = Inr (Some node)"
  using assms
proof (induction cs)
  case Nil
  then show ?case by simp
next
  case (Cons c cs)
  show ?case
  proof (cases "c = node")
    case True
    with Cons.prems show ?thesis by simp
  next
    case False
    with Cons.prems have n: "node \<in> set cs" by simp
    from Cons.prems(2) obtain nm' where nm': "DirectoryNode_get_name (s ! c) = Inr nm'"
      by auto
    from Cons.prems(1) n Cons.prems(4) nm' have "nm' \<noteq> nm"
      by (metis (no_types, lifting) distinct.simps(2) image_eqI list.simps(9) set_map)
    with nm' Cons.IH Cons.prems n show ?thesis by simp
  qed
qed

lemma get_parent_loop_path:
  assumes r: "rooted_store s" and w: "well_named s"
  shows "node < length s \<Longrightarrow> n < 0 \<Longrightarrow>
    \<exists>pre names. get_parent_loop s None True n acc node = Some (pre @ acc, 0) \<and>
      map (\<lambda>m. DirectoryNode_get_name (s ! m)) pre = map Inr names \<and>
      (\<forall>nm\<in>set names. nm \<noteq> [] \<and> sep \<notin> set nm) \<and>
      getitem_walk s 0 names = Inr (Some node)"
proof (induction node arbitrary: n acc rule: less_induct)
  case (less node)
  show ?case
  proof (cases "parent (s ! node)")
    case None
    with rooted_storeD(1)[OF r less.prems(1)] have z: "node = 0" by simp
    from None less.prems(2) have "get_parent_loop s None True n acc node = Some ([] @ acc, 0)"
      by (subst get_parent_loop.simps) (simp add: z)
    moreover have "getitem_walk s 0 [] = Inr (Some node)"
      by (simp add: z)
    ultimately have "get_parent_loop s None True n acc node = Some ([] @ acc, 0) \<and>
      map (\<lambda>m. DirectoryNode_get_name (s ! m)) [] = map Inr [] \<and>
      (\<forall>nm\<in>set []. nm \<noteq> [] \<and> sep \<notin> set nm) \<and>
      getitem_walk s 0 [] = Inr (Some node)"
      by simp
    then show ?thesis
      by (intro exI)
  next
    case (Some p)
    from rooted_storeD(2)[OF r less.prems(1) Some] have p: "p < node" "node \<in> set (children (s ! p))"
      by auto
    with less.prems(1) have pl: "p < length s" by simp
    from less.prems(2) have n1: "n - 1 < 0" by simp
    from less.IH[OF p(1) pl n1, of "node # acc"] obtain pre names where
      g: "get_parent_loop s None True (n - 1) (node # acc) p = Some (pre @ node # acc, 0)"
      and m: "map (\<lambda>m. DirectoryNode_get_name (s ! m)) pre = map Inr names"
      and ok: "\<forall>nm\<in>set names. nm \<noteq> [] \<and> sep \<notin> set nm"
      and wk: "getitem_walk s 0 names = Inr (Some p)"
      by blast
    from well_namedD(2)[OF w pl p(2)] obtain nm where
      nm: "DirectoryNode_get_name (s ! node) = Inr nm" "sep \<notin> set nm"
      by blast
    have ne: "nm \<noteq> []"
      using nm(1) by (rule get_name_nonempty)
    have all: "\<forall>c\<in>set (children (s ! p)). \<exists>nm. DirectoryNode_get_name (s ! c) = Inr nm"
      using well_namedD(2)[OF w pl] by blast
    have ch: "getitem_child s (children (s ! p)) nm = Inr (Some node)"
      using well_namedD(1)[OF w pl] all p(2) nm(1) by (rule getitem_child_found)
    have 1: "get_parent_loop s None True n acc node = Some ((pre @ [node]) @ acc, 0)"
      using Some less.prems(2) g by (subst get_parent_loop.simps) simp
    have 2: "map (\<lambda>m. DirectoryNode_get_name (s ! m)) (pre @ [node]) = map Inr (names @ [nm])"
      using m nm(1) by simp
    have 3: "\<forall>x\<in>set (names @ [nm]). x \<noteq> [] \<and> sep \<notin> set x"
      using ok nm(2) ne by simp
    have 4: "getitem_walk s 0 (names @ [nm]) = Inr (Some node)"
      using getitem_walk_append[OF wk, of "[nm]"] ch by simp
    from 1 2 3 4 have "get_parent_loop s None True n acc node = Some ((pre @ [node]) @ acc, 0) \<and>
      map (\<lambda>m. DirectoryNode_get_name (s ! m)) (pre @ [node]) = map Inr (names @ [nm]) \<and>
      (\<forall>x\<in>set (names @ [nm]). x \<noteq> [] \<and> sep \<notin> set x) \<and>
      getitem_walk s 0 (names @ [nm]) = Inr (Some node)"
      by (intro conjI)
    then show ?thesis
      by (intro exI)
  qed
qed

text \<open>
  C2. For every table for which \<open>directory_build\<close> returns a tree (in particular the
  table of a scanned archive) and whose sibling names are distinct and free of the
  path separator, every node of the tree has a path, and indexing the root with that
  path returns the node itself.
\<close>

theorem lookup_path_of_node:
  assumes "GGPKFile_directory_build records [] None = Some (Inr (s, root))"
      and "well_named s" and "node < length s"
  shows "\<exists>p. path_of s node = Some p \<and>
           DirectoryNode_getitem s root p = Some (Inr (Some node))"
proof -
  from directory_build_rooted[OF assms(1)] have root: "root = 0" and r: "rooted_store s"
    by simp_all
  from get_parent_loop_path[OF r assms(2,3), of "- 1" "[]"] obtain pre names where
    g: "get_parent_loop s None True (- 1) [] node = Some (pre, 0)"
    and m: "map (\<lambda>m. DirectoryNode_get_name (s ! m)) pre = map Inr names"
    and ok: "\<forall>nm\<in>set names. nm \<noteq> [] \<and> sep \<notin> set nm"
    and wk: "getitem_walk s 0 names = Inr (Some node)"
    by auto
  from m have e: "\<not> list_ex (\<lambda>n. isl (DirectoryNode_get_name (s ! n))) pre"
    by (induction pre arbitrary: names) auto
  from m have j: "map (\<lambda>n. projr (DirectoryNode_get_name (s ! n))) pre = names"
    by (induction pre arbitrary: names) auto
  have 1: "path_of s node = Some (path_join names)"
    by (simp add: path_of_def DirectoryNode_get_parent_def g e j)
  have 2: "DirectoryNode_getitem s root (path_join names) = Some (Inr (Some node))"
    by (simp add: DirectoryNode_getitem_def getitem_split_join[OF ok] wk root)
  from 1 2 show ?thesis by blast
qed

text \<open>
  The example archive, from its bytes: the scan, the build, and the lookup of the file
  \<open>b\<close> by its path \<open>d/b\<close>.
\<close>

lemma read_offsets_numeral:
  "GGPKRecord_read_offsets (numeral k) b offs =
     (case read b 8 of (bs, b1) \<Rightarrow>
        (case struct_unpack_q bs of
           Inl e \<Rightarrow> Inl e
         | Inr v \<Rightarrow> GGPKRecord_read_offsets (pred_numeral k) b1 (offs @ [v])))"
  by (simp add: numeral_eq_Suc)

lemma read_entries_numeral:
  "DirectoryRecord_read_entries (numeral k) b es =
     (case read b 4 of (hs, b1) \<Rightarrow>
        (case struct_unpack_I hs of
           Inl e \<Rightarrow> Inl e
         | Inr h \<Rightarrow>
             (case read b1 8 of (os, b2) \<Rightarrow>
                (case struct_unpack_q os of
                   Inl e \<Rightarrow> Inl e
                 | Inr off \<Rightarrow>
                     DirectoryRecord_read_entries (pred_numeral k) b2
                       (es @ [DirectoryRecordEntry h off])))))"
  by (simp add: numeral_eq_Suc)

lemma archive_scan: "GGPKFile_read archive_bytes = Some (Inr archive_records)"
  by (simp add: GGPKFile_read_def GGPKFile_read_loop.simps GGPKFile_read_record_def
        read_def seek_cur_def tell_def struct_unpack_i_def struct_unpack_I_def
        struct_unpack_q_def decode_ascii_def str_of_def
        GGPKRecord_read_def DirectoryRecord_read_def FileRecord_read_def FreeRecord_read_def
        decode_UTF_16_def decode_UTF_16_LE_def utf16_decode_def int_from_bytes_big_def
        le_uint_replicate_zero Let_def archive_bytes_def archive_records_def
        read_offsets_numeral read_entries_numeral)


lemma archive_build:
  "GGPKFile_directory_build archive_records [] None = Some (Inr (archive_store, 0))"
  apply (simp add: GGPKFile_directory_build_def build_root_def record_offsets_def
        record_entries_def build_pending_def archive_records_def)
  apply (simp add: build_loop.simps build_node_def build_pending_def archive_store_def)
  done

lemma archive_well_named: "well_named archive_store"
  by (simp add: well_named_def archive_store_def upt_rec DirectoryNode_get_name_def
        record_name_def str_of_def sep_def)

lemma archive_path_of: "path_of archive_store 2 = Some (str_of ''d/b'')"
  by (simp add: path_of_def DirectoryNode_get_parent_def get_parent_loop.simps
        archive_store_def DirectoryNode_get_name_def record_name_def str_of_def sep_def)

theorem lookup_path_of_node_witness:
  "GGPKFile_read archive_bytes = Some (Inr archive_records) \<and>
   GGPKFile_directory_build archive_records [] None = Some (Inr (archive_store, 0)) \<and>
   well_named archive_store \<and> 2 < length archive_store \<and>
   path_of archive_store 2 = Some (str_of ''d/b'') \<and>
   DirectoryNode_getitem archive_store 0 (str_of ''d/b'') = Some (Inr (Some 2))"
proof -
  have l: "2 < length archive_store"
    by (simp add: archive_store_def)
  from lookup_path_of_node[OF archive_build archive_well_named l] obtain p where
    "path_of archive_store 2 = Some p"
    "DirectoryNode_getitem archive_store 0 p = Some (Inr (Some 2))"
    by blast
  then have "DirectoryNode_getitem archive_store 0 (str_of ''d/b'') = Some (Inr (Some 2))"
    by (simp add: archive_path_of)
  with archive_scan archive_build archive_well_named l archive_path_of show ?thesis
    by (intro conjI)
qed

end
